theory Spec2Isabelle
  imports Main
begin

section \<open>Characters\<close>

text \<open>
  Statements are Go strings.  The \<^verbatim>\<open>regexp\<close> package reads a string as a sequence of
  Unicode code points, and so does the model: a character is its code point, a text is a
  list of code points.  \<open>ustr\<close> gives the text of a string constant of the source; these
  are ASCII throughout.  The character classes are the ASCII classes of RE2 syntax:
  \<^verbatim>\<open>\s\<close> is tab, newline, form feed, carriage return and space, \<^verbatim>\<open>\w\<close> is
  \<^verbatim>\<open>[0-9A-Za-z_]\<close>.
\<close>

type_synonym rune = nat
type_synonym runes = "rune list"

abbreviation (input) rn :: "char \<Rightarrow> rune" where
  "rn c \<equiv> of_char c"

abbreviation (input) ustr :: "string \<Rightarrow> runes" where
  "ustr w \<equiv> map of_char w"

definition is_space :: "rune \<Rightarrow> bool" where
  "is_space x = (x = 9 \<or> x = 10 \<or> x = 12 \<or> x = 13 \<or> x = 32)"

definition is_upper :: "rune \<Rightarrow> bool" where
  "is_upper x = (65 \<le> x \<and> x \<le> 90)"

definition is_lower :: "rune \<Rightarrow> bool" where
  "is_lower x = (97 \<le> x \<and> x \<le> 122)"

definition is_digit :: "rune \<Rightarrow> bool" where
  "is_digit x = (48 \<le> x \<and> x \<le> 57)"

definition is_word :: "rune \<Rightarrow> bool" where
  "is_word x = (is_digit x \<or> is_upper x \<or> is_lower x \<or> x = 95)"

text \<open>
  Under \<^verbatim>\<open>(?i)\<close> Go matches a character of the pattern against every character of its
  orbit under Unicode simple case folding (\<^verbatim>\<open>unicode.SimpleFold\<close>).  The patterns of the
  source hold ASCII characters only.  The orbit of an ASCII letter is its two cases, with
  two exceptions: the orbit of \<^verbatim>\<open>s\<close> also holds U+017F (long s) and the orbit of
  \<^verbatim>\<open>k\<close> also holds U+212A (Kelvin sign); no other character folds to an ASCII one.
  \<open>fold_key\<close> picks the lower-case letter of such an orbit and leaves every other
  character alone; \<open>orbit\<close> lists the orbit.
\<close>

definition fold_key :: "rune \<Rightarrow> rune" where
  "fold_key x =
     (if is_upper x then x + 32 else if x = 0x17F then 115 else if x = 0x212A then 107 else x)"

definition orbit :: "rune \<Rightarrow> rune list" where
  "orbit x =
     (if is_lower (fold_key x)
      then [fold_key x, fold_key x - 32] @
           (if fold_key x = 115 then [0x17F] else if fold_key x = 107 then [0x212A] else [])
      else [x])"

section \<open>Regular expressions\<close>

text \<open>
  A pattern of the source is represented by its syntax tree; the constructors are named
  after the operators of Go's \<^verbatim>\<open>regexp/syntax\<close>.  Repetition is only ever applied to a
  single-character matcher in the source, which is what \<open>Star\<close>, \<open>Plus\<close> and \<open>LazyStar\<close>
  take.  \<open>FoldCase\<close> is the flag group \<^verbatim>\<open>(?i)\<close> that opens every pattern.
\<close>

datatype citem =
    CChar rune            \<comment> \<open>a single character inside brackets\<close>
  | CRange rune rune      \<comment> \<open>\<^verbatim>\<open>a-b\<close>\<close>
  | PerlSpace             \<comment> \<open>\<^verbatim>\<open>\s\<close>\<close>
  | PerlNotSpace          \<comment> \<open>\<^verbatim>\<open>\S\<close>\<close>
  | PerlWord              \<comment> \<open>\<^verbatim>\<open>\w\<close>\<close>

datatype atom =
    CharClass bool "citem list"   \<comment> \<open>\<^verbatim>\<open>[...]\<close>; the flag is set for \<^verbatim>\<open>[^...]\<close>\<close>
  | AnyCharNotNL                  \<comment> \<open>\<^verbatim>\<open>.\<close>\<close>

datatype regex =
    Literal runes
  | One atom
  | Star atom                     \<comment> \<open>\<^verbatim>\<open>x*\<close>\<close>
  | Plus atom                     \<comment> \<open>\<^verbatim>\<open>x+\<close>\<close>
  | LazyStar atom                 \<comment> \<open>\<^verbatim>\<open>x*?\<close>\<close>
  | BeginText                     \<comment> \<open>\<^verbatim>\<open>^\<close>\<close>
  | EndText                       \<comment> \<open>\<^verbatim>\<open>$\<close>\<close>
  | WordBoundary                  \<comment> \<open>\<^verbatim>\<open>\b\<close>\<close>
  | EmptyMatch
  | Concat "regex list"
  | Alternate "regex list"        \<comment> \<open>\<^verbatim>\<open>x|y\<close>\<close>
  | Capture nat regex             \<comment> \<open>\<^verbatim>\<open>(x)\<close>, numbered\<close>
  | FoldCase regex                \<comment> \<open>\<^verbatim>\<open>(?i)x\<close>\<close>

fun citem_in :: "citem \<Rightarrow> rune \<Rightarrow> bool" where
  "citem_in (CChar a) x = (x = a)"
| "citem_in (CRange a b) x = (a \<le> x \<and> x \<le> b)"
| "citem_in PerlSpace x = is_space x"
| "citem_in PerlNotSpace x = (\<not> is_space x)"
| "citem_in PerlWord x = is_word x"

text \<open>
  Under \<^verbatim>\<open>(?i)\<close> a class is closed under folding before it is negated: it holds a
  character when it holds a character of its orbit.
\<close>

definition citem_fold :: "bool \<Rightarrow> citem \<Rightarrow> rune \<Rightarrow> bool" where
  "citem_fold fc it x = (citem_in it x \<or> (fc \<and> list_ex (citem_in it) (orbit x)))"

fun atom_ok :: "bool \<Rightarrow> atom \<Rightarrow> rune \<Rightarrow> bool" where
  "atom_ok fc (CharClass neg items) x = (neg \<noteq> list_ex (\<lambda>it. citem_fold fc it x) items)"
| "atom_ok fc AnyCharNotNL x = (x \<noteq> 10)"

definition chr_eq :: "bool \<Rightarrow> rune \<Rightarrow> rune \<Rightarrow> bool" where
  "chr_eq fc a x = (x = a \<or> (fc \<and> fold_key x = fold_key a))"

subsection \<open>Matching\<close>

text \<open>
  Go returns the leftmost match and, among the matches that start there, the one a
  backtracking search finds first.  \<open>rmatch\<close> is that search: from a thread (the
  character before the current position, the input that is left, the capture groups) it
  lists the threads after every way of matching the expression, in the order in which
  backtracking reaches them.  The head of the list is Go's match.  A capture group is
  recorded the way Go records its two indices: as the input left where the group began
  and the input left where it ended; \<open>group_text\<close> is the text between the two.
\<close>

type_synonym captures = "nat \<Rightarrow> (runes \<times> runes) option"
type_synonym thread = "rune option \<times> runes \<times> captures"

definition group_text :: "runes \<times> runes \<Rightarrow> runes" where
  "group_text g = take (length (fst g) - length (snd g)) (fst g)"

fun match_lit :: "bool \<Rightarrow> runes \<Rightarrow> rune option \<Rightarrow> runes \<Rightarrow> (rune option \<times> runes) option" where
  "match_lit fc [] p s = Some (p, s)"
| "match_lit fc (a # w) p [] = None"
| "match_lit fc (a # w) p (x # xs) = (if chr_eq fc a x then match_lit fc w (Some x) xs else None)"

text \<open>
  A greedy repetition prefers the longest run, a lazy one the shortest.  \<open>greedy\<close> walks
  along the run and stacks every place where the repetition may stop, so the longest run
  comes first.
\<close>

fun greedy :: "(rune \<Rightarrow> bool) \<Rightarrow> rune option \<Rightarrow> runes \<Rightarrow> (rune option \<times> runes) list
    \<Rightarrow> (rune option \<times> runes) list" where
  "greedy P p [] acc = (p, []) # acc"
| "greedy P p (x # xs) acc =
     (if P x then greedy P (Some x) xs ((p, x # xs) # acc) else (p, x # xs) # acc)"

fun lazy :: "(rune \<Rightarrow> bool) \<Rightarrow> rune option \<Rightarrow> runes \<Rightarrow> (rune option \<times> runes) list" where
  "lazy P p [] = [(p, [])]"
| "lazy P p (x # xs) = (if P x then (p, x # xs) # lazy P (Some x) xs else [(p, x # xs)])"

definition word_before :: "rune option \<Rightarrow> bool" where
  "word_before p = (case p of None \<Rightarrow> False | Some x \<Rightarrow> is_word x)"

definition word_after :: "runes \<Rightarrow> bool" where
  "word_after s = (case s of [] \<Rightarrow> False | x # xs \<Rightarrow> is_word x)"

fun rmatch :: "bool \<Rightarrow> regex \<Rightarrow> thread \<Rightarrow> thread list"
  and rmatch_seq :: "bool \<Rightarrow> regex list \<Rightarrow> thread \<Rightarrow> thread list"
  and rmatch_alt :: "bool \<Rightarrow> regex list \<Rightarrow> thread \<Rightarrow> thread list" where
  "rmatch fc (Literal w) (p, s, c) =
     (case match_lit fc w p s of None \<Rightarrow> [] | Some (p', s') \<Rightarrow> [(p', s', c)])"
| "rmatch fc (One a) (p, s, c) =
     (case s of [] \<Rightarrow> [] | x # xs \<Rightarrow> if atom_ok fc a x then [(Some x, xs, c)] else [])"
| "rmatch fc (Star a) (p, s, c) = map (\<lambda>(p', s'). (p', s', c)) (greedy (atom_ok fc a) p s [])"
| "rmatch fc (Plus a) (p, s, c) =
     (case s of [] \<Rightarrow> []
      | x # xs \<Rightarrow> if atom_ok fc a x
          then map (\<lambda>(p', s'). (p', s', c)) (greedy (atom_ok fc a) (Some x) xs []) else [])"
| "rmatch fc (LazyStar a) (p, s, c) = map (\<lambda>(p', s'). (p', s', c)) (lazy (atom_ok fc a) p s)"
| "rmatch fc BeginText (p, s, c) = (if p = None then [(p, s, c)] else [])"
| "rmatch fc EndText (p, s, c) = (if s = [] then [(p, s, c)] else [])"
| "rmatch fc WordBoundary (p, s, c) = (if word_before p \<noteq> word_after s then [(p, s, c)] else [])"
| "rmatch fc EmptyMatch t = [t]"
| "rmatch fc (Concat rs) t = rmatch_seq fc rs t"
| "rmatch fc (Alternate rs) t = rmatch_alt fc rs t"
| "rmatch fc (Capture k re) (p, s, c) =
     map (\<lambda>(p', s', c'). (p', s', c'(k \<mapsto> (s, s')))) (rmatch fc re (p, s, c))"
| "rmatch fc (FoldCase re) t = rmatch True re t"
| "rmatch_seq fc [] t = [t]"
| "rmatch_seq fc (re # rs) t = concat (map (rmatch_seq fc rs) (rmatch fc re t))"
| "rmatch_alt fc [] t = []"
| "rmatch_alt fc (re # rs) t = rmatch fc re t @ rmatch_alt fc rs t"

subsection \<open>The library operations used by the source\<close>

text \<open>
  \<^verbatim>\<open>MatchString\<close> reports whether the text holds a match at any position.  \<open>matchFrom\<close>
  scans the positions from left to right; \<open>p\<close> is the character before the position
  (\<open>None\<close> at the beginning of the text).
\<close>

fun matchFrom :: "regex \<Rightarrow> rune option \<Rightarrow> runes \<Rightarrow> bool" where
  "matchFrom re p [] = (case rmatch False re (p, [], Map.empty) of [] \<Rightarrow> False | t # ts \<Rightarrow> True)"
| "matchFrom re p (x # xs) =
     (case rmatch False re (p, x # xs, Map.empty) of
        [] \<Rightarrow> matchFrom re (Some x) xs
      | t # ts \<Rightarrow> True)"

definition MatchString :: "regex \<Rightarrow> runes \<Rightarrow> bool" where
  "MatchString re s = matchFrom re None s"

text \<open>
  Template expansion, as \<^verbatim>\<open>Regexp.expand\<close> does it: \<^verbatim>\<open>$$\<close> is a dollar sign,
  \<^verbatim>\<open>$name\<close> and \<^verbatim>\<open>${name}\<close> are the text of a group, and a dollar sign followed
  by neither stays as it is.  A name is the longest run of letters, digits and underscores;
  one made of digits only (without a leading zero) is a group number.  The patterns of the
  source have no named groups, so any other name expands to nothing, as does a group that
  took no part in the match.
\<close>

definition parse_num :: "runes \<Rightarrow> nat option" where
  "parse_num name =
     (if name \<noteq> [] \<and> length name \<le> 9 \<and> list_all is_digit name
         \<and> \<not> (hd name = rn CHR ''0'' \<and> 1 < length name)
      then Some (foldl (\<lambda>n d. n * 10 + (d - 48)) 0 name) else None)"

definition extractName :: "runes \<Rightarrow> (runes \<times> runes) option" where
  "extractName str =
     (case str of
        [] \<Rightarrow> None
      | x # xs \<Rightarrow>
          if x = rn CHR ''{'' then
            (let name = takeWhile is_word xs; rest = dropWhile is_word xs in
             if name = [] then None
             else (case rest of [] \<Rightarrow> None
                   | y # ys \<Rightarrow> if y = rn CHR ''}'' then Some (name, ys) else None))
          else
            (let name = takeWhile is_word str; rest = dropWhile is_word str in
             if name = [] then None else Some (name, rest)))"

function expand :: "runes \<Rightarrow> captures \<Rightarrow> runes" where
  "expand [] c = []"
| "expand (x # xs) c =
     (if x \<noteq> rn CHR ''$'' then x # expand xs c
      else (case xs of
              [] \<Rightarrow> [x]
            | y # ys \<Rightarrow>
                if y = rn CHR ''$'' then rn CHR ''$'' # expand ys c
                else (case extractName xs of
                        None \<Rightarrow> rn CHR ''$'' # expand xs c
                      | Some (name, rest) \<Rightarrow>
                          (case parse_num name of
                             None \<Rightarrow> []
                           | Some n \<Rightarrow> (case c n of None \<Rightarrow> [] | Some g \<Rightarrow> group_text g))
                          @ expand rest c)))"
  by pat_completeness auto
termination
proof (relation "measure (\<lambda>(t, c). length t)")
  show "wf (measure (\<lambda>(t, c :: captures). length t))" by simp
next
  fix x :: rune and xs :: runes and c :: captures
  show "((xs, c), (x # xs, c)) \<in> measure (\<lambda>(t, c). length t)" by simp
next
  fix x y :: rune and xs ys :: runes and c :: captures
  assume "xs = y # ys"
  then show "((ys, c), (x # xs, c)) \<in> measure (\<lambda>(t, c). length t)" by simp
next
  fix x :: rune and xs :: runes and c :: captures
  show "((xs, c), (x # xs, c)) \<in> measure (\<lambda>(t, c). length t)" by simp
next
  fix x :: rune and xs rest name :: runes and c :: captures and nr
  assume "extractName xs = Some nr" and "(name, rest) = nr"
  then have e: "extractName xs = Some (name, rest)" by simp
  have d: "length ys \<le> length zs" if "dropWhile is_word zs = ys" for ys zs
    using that length_dropWhile_le [of is_word zs] by simp
  have d': "length (dropWhile is_word zs) \<le> Suc (length zs)" for zs
    using length_dropWhile_le [of is_word zs] by simp
  have "length rest \<le> length xs"
    using e
    by (auto simp: extractName_def Let_def d' split: list.splits if_splits dest!: d)
  then show "((rest, c), (x # xs, c)) \<in> measure (\<lambda>(t, c). length t)" by simp
qed

text \<open>
  \<^verbatim>\<open>ReplaceAllString\<close>: the loop of \<^verbatim>\<open>Regexp.replaceAll\<close>, one position at a time.
  Where no match starts, the character is copied.  Where the leftmost-first match starts,
  the expanded template is written and the search goes on after the match.  \<open>fresh\<close>
  says that the previous match ended exactly here: an empty match at that place is not
  replaced again, unless it is at the beginning of the text; after an empty match the
  loop moves on by one character.
\<close>

function replaceAll :: "regex \<Rightarrow> runes \<Rightarrow> bool \<Rightarrow> rune option \<Rightarrow> runes \<Rightarrow> runes" where
  "replaceAll re repl fresh p s =
     (case rmatch False re (p, s, Map.empty) of
        [] \<Rightarrow> (case s of [] \<Rightarrow> [] | x # xs \<Rightarrow> x # replaceAll re repl False (Some x) xs)
      | (p', s', c) # _ \<Rightarrow>
          if length s' < length s
          then expand repl (c(0 \<mapsto> (s, s'))) @ replaceAll re repl True p' s'
          else (if fresh \<and> p \<noteq> None then [] else expand repl (c(0 \<mapsto> (s, s'))))
               @ (case s of [] \<Rightarrow> [] | x # xs \<Rightarrow> x # replaceAll re repl False (Some x) xs))"
  by pat_completeness auto
termination
  by (relation "measure (\<lambda>(re, repl, fresh, p, s). length s)") auto

declare replaceAll.simps [simp del]

definition ReplaceAllString :: "regex \<Rightarrow> runes \<Rightarrow> runes \<Rightarrow> runes" where
  "ReplaceAllString re src repl = replaceAll re repl True None src"

section \<open>The dialect translator\<close>

record regexpMap =
  r :: regex
  replacement :: runes

definition process :: "regexpMap \<Rightarrow> runes \<Rightarrow> runes" where
  "process this text = ReplaceAllString (r this) text (replacement this)"

text \<open>
  \<^verbatim>\<open>regexpSpaces\<close> replaces every space of the pattern text by \<^verbatim>\<open>[\s]+\<close> before the
  pattern is compiled.  The spaces of the source's patterns are all plain literal
  characters, so on the syntax tree this splits each literal at its spaces.
\<close>

fun spaced :: "runes \<Rightarrow> regex list" where
  "spaced [] = []"
| "spaced (x # xs) =
     (if x = rn CHR '' '' then Plus (CharClass False [PerlSpace]) # spaced xs
      else (case spaced xs of
              Literal w # rs \<Rightarrow> Literal (x # w) # rs
            | rs \<Rightarrow> Literal [x] # rs))"

fun regexpSpaces :: "regex \<Rightarrow> regex" where
  "regexpSpaces (Literal w) = Concat (spaced w)"
| "regexpSpaces (Concat rs) = Concat (map regexpSpaces rs)"
| "regexpSpaces (Alternate rs) = Alternate (map regexpSpaces rs)"
| "regexpSpaces (Capture k re) = Capture k (regexpSpaces re)"
| "regexpSpaces (FoldCase re) = FoldCase (regexpSpaces re)"
| "regexpSpaces re = re"

definition rmap :: "regex \<Rightarrow> string \<Rightarrow> regexpMap" where
  "rmap regexpExpression repl =
     \<lparr> r = regexpSpaces regexpExpression, replacement = ustr repl \<rparr>"

subsection \<open>The rule lists\<close>

abbreviation (input) cc :: "char \<Rightarrow> citem" where "cc x \<equiv> CChar (rn x)"
abbreviation (input) cr :: "char \<Rightarrow> char \<Rightarrow> citem" where "cr x y \<equiv> CRange (rn x) (rn y)"
abbreviation (input) cls_s :: atom where "cls_s \<equiv> CharClass False [PerlSpace]"
abbreviation (input) cls_S :: atom where "cls_S \<equiv> CharClass False [PerlNotSpace]"
abbreviation (input) cls_sS :: atom where "cls_sS \<equiv> CharClass False [PerlSpace, PerlNotSpace]"
abbreviation (input) cls_w :: atom where "cls_w \<equiv> CharClass False [PerlWord]"
abbreviation (input) cls_09 :: atom where "cls_09 \<equiv> CharClass False [cr CHR ''0'' CHR ''9'']"
abbreviation (input) chr :: "char \<Rightarrow> regex" where
  "chr x \<equiv> One (CharClass False [cc x])"
abbreviation (input) Lit :: "string \<Rightarrow> regex" where "Lit w \<equiv> Literal (ustr w)"

definition createTableConversions :: "regexpMap list" where
  \<open>createTableConversions = [
    \<comment> \<open>\<^verbatim>\<open>(?i) (character set|charset) [\S]+\<close>\<close>
    rmap (FoldCase (Concat [Lit '' '',
            Capture 1 (Alternate [Lit ''character set'', Lit ''charset'']),
            Lit '' '', Plus cls_S])) [],
    \<comment> \<open>\<^verbatim>\<open>(?i)int unsigned\<close>\<close>
    rmap (FoldCase (Lit ''int unsigned'')) ''int'',
    \<comment> \<open>\<^verbatim>\<open>(?i)int[\s]*[(][\s]*([0-9]+)[\s]*[)] unsigned\<close>\<close>
    rmap (FoldCase (Concat [Lit ''int'', Star cls_s, chr CHR ''('', Star cls_s,
            Capture 1 (Plus cls_09), Star cls_s, chr CHR '')'', Lit '' unsigned''])) ''int'',
    \<comment> \<open>\<^verbatim>\<open>(?i)engine[\s]*=[\s]*(innodb|myisam|ndb|memory|tokudb)\<close>\<close>
    rmap (FoldCase (Concat [Lit ''engine'', Star cls_s, Lit ''='', Star cls_s,
            Capture 1 (Alternate [Lit ''innodb'', Lit ''myisam'', Lit ''ndb'',
                                  Lit ''memory'', Lit ''tokudb''])])) [],
    \<comment> \<open>\<^verbatim>\<open>(?i)DEFAULT CHARSET[\s]*=[\s]*[\S]+\<close>\<close>
    rmap (FoldCase (Concat [Lit ''DEFAULT CHARSET'', Star cls_s, Lit ''='', Star cls_s,
            Plus cls_S])) [],
    \<comment> \<open>\<^verbatim>\<open>(?i)int( not null|) auto_increment\<close>\<close>
    rmap (FoldCase (Concat [Lit ''int'',
            Capture 1 (Alternate [Lit '' not null'', EmptyMatch]),
            Lit '' auto_increment''])) ''integer'',
    \<comment> \<open>\<^verbatim>\<open>(?i)comment '[^']*'\<close>\<close>
    rmap (FoldCase (Concat [Lit (''comment '' @ [CHR 0x27]),
            Star (CharClass True [cc CHR 0x27]), Lit [CHR 0x27]])) [],
    \<comment> \<open>\<^verbatim>\<open>(?i)after [\S]+\<close>\<close>
    rmap (FoldCase (Concat [Lit ''after '', Plus cls_S])) [],
    \<comment> \<open>\<^verbatim>\<open>(?i)alter table ([\S]+) add (index|key) ([\S]+) (.+)\<close>\<close>
    rmap (FoldCase (Concat [Lit ''alter table '', Capture 1 (Plus cls_S), Lit '' add '',
            Capture 2 (Alternate [Lit ''index'', Lit ''key'']), Lit '' '',
            Capture 3 (Plus cls_S), Lit '' '', Capture 4 (Plus AnyCharNotNL)]))
      ''create index ${3}_${1} on $1 $4'',
    \<comment> \<open>\<^verbatim>\<open>(?i)alter table ([\S]+) add unique (index|key) ([\S]+) (.+)\<close>\<close>
    rmap (FoldCase (Concat [Lit ''alter table '', Capture 1 (Plus cls_S),
            Lit '' add unique '',
            Capture 2 (Alternate [Lit ''index'', Lit ''key'']), Lit '' '',
            Capture 3 (Plus cls_S), Lit '' '', Capture 4 (Plus AnyCharNotNL)]))
      ''create unique index ${3}_${1} on $1 $4'',
    \<comment> \<open>\<^verbatim>\<open>(?i)([\S]+) enum[\s]*([(].*?[)])\<close>\<close>
    rmap (FoldCase (Concat [Capture 1 (Plus cls_S), Lit '' enum'', Star cls_s,
            Capture 2 (Concat [chr CHR ''('', LazyStar AnyCharNotNL, chr CHR '')''])]))
      ''$1 text check($1 in $2)'',
    \<comment> \<open>\<^verbatim>\<open>(?i)([\s\S]+[/][*] sqlite3-skip [*][/][\s\S]+)\<close>\<close>
    rmap (FoldCase (Capture 1 (Concat [Plus cls_sS, chr CHR ''/'', chr CHR ''*'',
            Lit '' sqlite3-skip '', chr CHR ''*'', chr CHR ''/'', Plus cls_sS]))) [],
    \<comment> \<open>\<^verbatim>\<open>(?i)timestamp default current_timestamp\<close>\<close>
    rmap (FoldCase (Lit ''timestamp default current_timestamp''))
      (''timestamp default ('' @ [CHR 0x27, CHR 0x27] @ '')''),
    \<comment> \<open>\<^verbatim>\<open>(?i)timestamp not null default current_timestamp\<close>\<close>
    rmap (FoldCase (Lit ''timestamp not null default current_timestamp''))
      (''timestamp not null default ('' @ [CHR 0x27, CHR 0x27] @ '')''),
    \<comment> \<open>\<^verbatim>\<open>(?i)add column (.*int) not null[\s]*$\<close>\<close>
    rmap (FoldCase (Concat [Lit ''add column '',
            Capture 1 (Concat [Star AnyCharNotNL, Lit ''int'']),
            Lit '' not null'', Star cls_s, EndText]))
      ''add column $1 not null default 0'',
    \<comment> \<open>\<^verbatim>\<open>(?i)add column (.* text) not null[\s]*$\<close>\<close>
    rmap (FoldCase (Concat [Lit ''add column '',
            Capture 1 (Concat [Star AnyCharNotNL, Lit '' text'']),
            Lit '' not null'', Star cls_s, EndText]))
      (''add column $1 not null default '' @ [CHR 0x27, CHR 0x27]),
    \<comment> \<open>\<^verbatim>\<open>(?i)add column (.* varchar.*) not null[\s]*$\<close>\<close>
    rmap (FoldCase (Concat [Lit ''add column '',
            Capture 1 (Concat [Star AnyCharNotNL, Lit '' varchar'', Star AnyCharNotNL]),
            Lit '' not null'', Star cls_s, EndText]))
      (''add column $1 not null default '' @ [CHR 0x27, CHR 0x27])
  ]\<close>

definition insertConversions :: "regexpMap list" where
  \<open>insertConversions = [
    \<comment> \<open>\<^verbatim>\<open>(?i)insert ignore\<close>\<close>
    rmap (FoldCase (Lit ''insert ignore'')) ''insert or ignore'',
    \<comment> \<open>\<^verbatim>\<open>(?i)now[(][)]\<close>\<close>
    rmap (FoldCase (Concat [Lit ''now'', chr CHR ''('', chr CHR '')''])) ''datetime('now')'',
    \<comment> \<open>\<^verbatim>\<open>(?i)insert into ([\s\S]+) on duplicate key update [\s\S]+\<close>\<close>
    rmap (FoldCase (Concat [Lit ''insert into '', Capture 1 (Plus cls_sS),
            Lit '' on duplicate key update '', Plus cls_sS])) ''replace into $1''
  ]\<close>

definition generalConversions :: "regexpMap list" where
  \<open>generalConversions = [
    \<comment> \<open>\<^verbatim>\<open>(?i)now[(][)][\s]*[-][\s]*interval [?] ([\w]+)\<close>\<close>
    rmap (FoldCase (Concat [Lit ''now'', chr CHR ''('', chr CHR '')'', Star cls_s,
            chr CHR ''-'', Star cls_s, Lit ''interval '', chr CHR ''?'', Lit '' '',
            Capture 1 (Plus cls_w)]))
      ''datetime('now', printf('-%d $1', ?))'',
    \<comment> \<open>\<^verbatim>\<open>(?i)now[(][)][\s]*[+][\s]*interval [?] ([\w]+)\<close>\<close>
    rmap (FoldCase (Concat [Lit ''now'', chr CHR ''('', chr CHR '')'', Star cls_s,
            chr CHR ''+'', Star cls_s, Lit ''interval '', chr CHR ''?'', Lit '' '',
            Capture 1 (Plus cls_w)]))
      ''datetime('now', printf('+%d $1', ?))'',
    \<comment> \<open>\<^verbatim>\<open>(?i)now[(][)][\s]*[-][\s]*interval ([0-9.]+) ([\w]+)\<close>\<close>
    rmap (FoldCase (Concat [Lit ''now'', chr CHR ''('', chr CHR '')'', Star cls_s,
            chr CHR ''-'', Star cls_s, Lit ''interval '',
            Capture 1 (Plus (CharClass False [cr CHR ''0'' CHR ''9'', cc CHR ''.''])),
            Lit '' '', Capture 2 (Plus cls_w)]))
      ''datetime('now', '-${1} $2')'',
    \<comment> \<open>\<^verbatim>\<open>(?i)now[(][)][\s]*[+][\s]*interval ([0-9.]+) ([\w]+)\<close>\<close>
    rmap (FoldCase (Concat [Lit ''now'', chr CHR ''('', chr CHR '')'', Star cls_s,
            chr CHR ''+'', Star cls_s, Lit ''interval '',
            Capture 1 (Plus (CharClass False [cr CHR ''0'' CHR ''9'', cc CHR ''.''])),
            Lit '' '', Capture 2 (Plus cls_w)]))
      ''datetime('now', '+${1} $2')'',
    \<comment> \<open>\<^verbatim>\<open>(?i)[=<>\s]([\S]+[.][\S]+)[\s]*[-][\s]*interval [?] ([\w]+)\<close>\<close>
    rmap (FoldCase (Concat [
            One (CharClass False [cc CHR ''='', cc CHR ''<'', cc CHR ''>'', PerlSpace]),
            Capture 1 (Concat [Plus cls_S, chr CHR ''.'', Plus cls_S]), Star cls_s,
            chr CHR ''-'', Star cls_s, Lit ''interval '', chr CHR ''?'', Lit '' '',
            Capture 2 (Plus cls_w)]))
      '' datetime($1, printf('-%d $2', ?))'',
    \<comment> \<open>\<^verbatim>\<open>(?i)[=<>\s]([\S]+[.][\S]+)[\s]*[+][\s]*interval [?] ([\w]+)\<close>\<close>
    rmap (FoldCase (Concat [
            One (CharClass False [cc CHR ''='', cc CHR ''<'', cc CHR ''>'', PerlSpace]),
            Capture 1 (Concat [Plus cls_S, chr CHR ''.'', Plus cls_S]), Star cls_s,
            chr CHR ''+'', Star cls_s, Lit ''interval '', chr CHR ''?'', Lit '' '',
            Capture 2 (Plus cls_w)]))
      '' datetime($1, printf('+%d $2', ?))'',
    \<comment> \<open>\<^verbatim>\<open>(?i)unix_timestamp[(][)]\<close>\<close>
    rmap (FoldCase (Concat [Lit ''unix_timestamp'', chr CHR ''('', chr CHR '')'']))
      ''strftime('%s', 'now')'',
    \<comment> \<open>\<^verbatim>\<open>(?i)unix_timestamp[(]([^)]+)[)]\<close>\<close>
    rmap (FoldCase (Concat [Lit ''unix_timestamp'', chr CHR ''('',
            Capture 1 (Plus (CharClass True [cc CHR '')''])), chr CHR '')'']))
      ''strftime('%s', $1)'',
    \<comment> \<open>\<^verbatim>\<open>(?i)now[(][)]\<close>\<close>
    rmap (FoldCase (Concat [Lit ''now'', chr CHR ''('', chr CHR '')''])) ''datetime('now')'',
    \<comment> \<open>\<^verbatim>\<open>(?i)cast[(][\s]*([\S]+) as signed[\s]*[)]\<close>\<close>
    rmap (FoldCase (Concat [Lit ''cast'', chr CHR ''('', Star cls_s, Capture 1 (Plus cls_S),
            Lit '' as signed'', Star cls_s, chr CHR '')''])) ''cast($1 as integer)'',
    \<comment> \<open>\<^verbatim>\<open>(?i)\bconcat[(][\s]*([^,)]+)[\s]*,[\s]*([^,)]+)[\s]*[)]\<close>\<close>
    rmap (FoldCase (Concat [WordBoundary, Lit ''concat'', chr CHR ''('', Star cls_s,
            Capture 1 (Plus (CharClass True [cc CHR '','', cc CHR '')''])), Star cls_s,
            Lit '','', Star cls_s,
            Capture 2 (Plus (CharClass True [cc CHR '','', cc CHR '')''])), Star cls_s,
            chr CHR '')''])) ''($1 || $2)'',
    \<comment> \<open>\<^verbatim>\<open>(?i)\bconcat[(][\s]*([^,)]+)[\s]*,[\s]*([^,)]+)[\s]*,[\s]*([^,)]+)[\s]*[)]\<close>\<close>
    rmap (FoldCase (Concat [WordBoundary, Lit ''concat'', chr CHR ''('', Star cls_s,
            Capture 1 (Plus (CharClass True [cc CHR '','', cc CHR '')''])), Star cls_s,
            Lit '','', Star cls_s,
            Capture 2 (Plus (CharClass True [cc CHR '','', cc CHR '')''])), Star cls_s,
            Lit '','', Star cls_s,
            Capture 3 (Plus (CharClass True [cc CHR '','', cc CHR '')''])), Star cls_s,
            chr CHR '')''])) ''($1 || $2 || $3)'',
    \<comment> \<open>\<^verbatim>\<open>(?i) rlike \<close>\<close>
    rmap (FoldCase (Lit '' rlike '')) '' like '',
    \<comment> \<open>\<^verbatim>\<open>(?i)create index([\s\S]+)[(][\s]*[0-9]+[\s]*[)]([\s\S]+)\<close>\<close>
    rmap (FoldCase (Concat [Lit ''create index'', Capture 1 (Plus cls_sS), chr CHR ''('',
            Star cls_s, Plus cls_09, Star cls_s, chr CHR '')'', Capture 2 (Plus cls_sS)]))
      ''create index ${1}${2}''
  ]\<close>

subsection \<open>The classifier\<close>

text \<open>\<^verbatim>\<open>(?i)^[\s]*create table\<close>\<close>

definition identifyCreateTableStatement :: regex where
  "identifyCreateTableStatement =
     regexpSpaces (FoldCase (Concat [BeginText, Star cls_s, Lit ''create table'']))"

text \<open>\<^verbatim>\<open>(?i)^[\s]*create( unique|) index\<close>\<close>

definition identifyCreateIndexStatement :: regex where
  "identifyCreateIndexStatement =
     regexpSpaces (FoldCase (Concat [BeginText, Star cls_s, Lit ''create'',
        Capture 1 (Alternate [Lit '' unique'', EmptyMatch]), Lit '' index'']))"

text \<open>\<^verbatim>\<open>(?i)^[\s]*drop index\<close>\<close>

definition identifyDropIndexStatement :: regex where
  "identifyDropIndexStatement =
     regexpSpaces (FoldCase (Concat [BeginText, Star cls_s, Lit ''drop index'']))"

text \<open>\<^verbatim>\<open>(?i)^[\s]*alter table\<close>\<close>

definition identifyAlterTableStatement :: regex where
  "identifyAlterTableStatement =
     regexpSpaces (FoldCase (Concat [BeginText, Star cls_s, Lit ''alter table'']))"

text \<open>\<^verbatim>\<open>(?i)^[\s]*(insert|replace)\<close>\<close>

definition identifyInsertStatement :: regex where
  "identifyInsertStatement =
     regexpSpaces (FoldCase (Concat [BeginText, Star cls_s,
        Capture 1 (Alternate [Lit ''insert'', Lit ''replace''])]))"

definition IsInsert :: "runes \<Rightarrow> bool" where
  "IsInsert statement = MatchString identifyInsertStatement statement"

definition IsCreateTable :: "runes \<Rightarrow> bool" where
  "IsCreateTable statement = MatchString identifyCreateTableStatement statement"

definition IsCreateIndex :: "runes \<Rightarrow> bool" where
  "IsCreateIndex statement = MatchString identifyCreateIndexStatement statement"

definition IsDropIndex :: "runes \<Rightarrow> bool" where
  "IsDropIndex statement = MatchString identifyDropIndexStatement statement"

definition IsAlterTable :: "runes \<Rightarrow> bool" where
  "IsAlterTable statement = MatchString identifyAlterTableStatement statement"

subsection \<open>The rewrite engine and the dispatcher\<close>

fun applyConversions :: "runes \<Rightarrow> regexpMap list \<Rightarrow> runes" where
  "applyConversions statement [] = statement"
| "applyConversions statement (rm # conversions) =
     applyConversions (process rm statement) conversions"

definition ToSqlite3CreateTable :: "runes \<Rightarrow> runes" where
  "ToSqlite3CreateTable statement = applyConversions statement createTableConversions"

definition ToSqlite3Insert :: "runes \<Rightarrow> runes" where
  "ToSqlite3Insert statement = applyConversions statement insertConversions"

definition ToSqlite3Dialect :: "runes \<Rightarrow> runes" where
  "ToSqlite3Dialect statement =
     (if IsCreateTable statement then ToSqlite3CreateTable statement
      else if IsAlterTable statement then ToSqlite3CreateTable statement
      else (let statement' = applyConversions statement generalConversions in
            if IsInsert statement' then ToSqlite3Insert statement' else statement'))"

section \<open>Notions used in the statements and proofs\<close>

text \<open>The character before the position reached after reading \<open>m\<close>.\<close>

definition prev_after :: "rune option \<Rightarrow> runes \<Rightarrow> rune option" where
  "prev_after p m = (if m = [] then p else Some (last m))"

text \<open>
  What every match of an expression must hold: a sequence of characters (as fold keys;
  \<open>None\<close> stands for any character) that the matched text contains in this order, not
  necessarily next to each other.  A text that does not contain the sequence (\<open>lacks\<close>)
  has no match.
\<close>

fun common_prefix :: "'a list \<Rightarrow> 'a list \<Rightarrow> 'a list" where
  "common_prefix (x # xs) (y # ys) = (if x = y then x # common_prefix xs ys else [])"
| "common_prefix xs ys = []"

fun needed :: "regex \<Rightarrow> rune option list"
  and needed_seq :: "regex list \<Rightarrow> rune option list"
  and needed_alt :: "regex list \<Rightarrow> rune option list" where
  "needed (Literal w) = map (\<lambda>x. Some (fold_key x)) w"
| "needed (One a) =
     (case a of CharClass neg items \<Rightarrow>
        (case items of [CChar x] \<Rightarrow> if neg then [None] else [Some (fold_key x)] | _ \<Rightarrow> [None])
      | AnyCharNotNL \<Rightarrow> [None])"
| "needed (Star a) = []"
| "needed (Plus a) = [None]"
| "needed (LazyStar a) = []"
| "needed BeginText = []"
| "needed EndText = []"
| "needed WordBoundary = []"
| "needed EmptyMatch = []"
| "needed (Concat rs) = needed_seq rs"
| "needed (Alternate rs) = needed_alt rs"
| "needed (Capture k re) = needed re"
| "needed (FoldCase re) = needed re"
| "needed_seq [] = []"
| "needed_seq (re # rs) = needed re @ needed_seq rs"
| "needed_alt [] = []"
| "needed_alt (re # rs) =
     (if rs = [] then needed re else common_prefix (needed re) (needed_alt rs))"

definition el_ok :: "rune option \<Rightarrow> rune \<Rightarrow> bool" where
  "el_ok e x = (case e of None \<Rightarrow> True | Some y \<Rightarrow> fold_key x = y)"

fun sub_ok :: "rune option list \<Rightarrow> runes \<Rightarrow> bool" where
  "sub_ok [] s = True"
| "sub_ok (e # es) [] = False"
| "sub_ok (e # es) (x # xs) = (if el_ok e x then sub_ok es xs else sub_ok (e # es) xs)"

definition lacks :: "regex \<Rightarrow> runes \<Rightarrow> bool" where
  "lacks re s = (\<not> sub_ok (needed re) s)"

text \<open>
  A statement that begins with the given keywords, in any case, with whitespace between
  them: what the classifier patterns ask of the text after its leading whitespace.
\<close>

definition ci_prefix :: "runes \<Rightarrow> runes \<Rightarrow> bool" where
  "ci_prefix w s = (map fold_key (take (length w) s) = map fold_key w)"

text \<open>
  \<open>decides fc rs F\<close>: whether the sequence \<open>rs\<close> can be matched from a position depends
  on the input left there only, and \<open>F\<close> tells it.
\<close>

definition decides :: "bool \<Rightarrow> regex list \<Rightarrow> (runes \<Rightarrow> bool) \<Rightarrow> bool" where
  "decides fc rs F = (\<forall>p s c. (rmatch_seq fc rs (p, s, c) = []) = (\<not> F s))"

fun starts :: "runes list \<Rightarrow> runes \<Rightarrow> bool" where
  "starts [] s = True"
| "starts [w] s = ci_prefix w s"
| "starts (w # w' # ws) s =
     (ci_prefix w s \<and>
      (case drop (length w) s of [] \<Rightarrow> False
       | x # xs \<Rightarrow> is_space x \<and> starts (w' # ws) (dropWhile is_space xs)))"

text \<open>
  \<open>unmatched re p pre s\<close>: in the text \<open>pre @ s\<close>, read after the character \<open>p\<close>, no match of
  \<open>re\<close> starts at a position inside \<open>pre\<close>.
\<close>

fun unmatched :: "regex \<Rightarrow> rune option \<Rightarrow> runes \<Rightarrow> runes \<Rightarrow> bool" where
  "unmatched re p [] s = True"
| "unmatched re p (x # xs) s =
     (rmatch False re (p, x # xs @ s, Map.empty) = [] \<and> unmatched re (Some x) xs s)"

text \<open>
  \<open>to_end ts\<close>: the first thread of \<open>ts\<close>, if there is one, has read the input to its end.
\<close>

definition to_end :: "thread list \<Rightarrow> bool" where
  "to_end ts = (case ts of [] \<Rightarrow> True | (p, s, c) # _ \<Rightarrow> s = [])"

text \<open>
  \<open>hd_stops P ts\<close>: the first thread of \<open>ts\<close>, if there is one, stands at the end of the
  input or before a character that \<open>P\<close> rejects.
\<close>

definition hd_stops :: "(rune \<Rightarrow> bool) \<Rightarrow> thread list \<Rightarrow> bool" where
  "hd_stops P ts =
     (case ts of [] \<Rightarrow> True | (p, s, c) # _ \<Rightarrow> (case s of [] \<Rightarrow> True | x # _ \<Rightarrow> \<not> P x))"




section \<open>Characters\<close>

lemma is_space_fold_key [simp]: "is_space (fold_key x) = is_space x"
  by (auto simp: is_space_def fold_key_def is_upper_def)

lemma is_digit_fold_key [simp]: "is_digit (fold_key x) = is_digit x"
  by (auto simp: is_digit_def fold_key_def is_upper_def)

lemma fold_key_idem [simp]: "fold_key (fold_key x) = fold_key x"
  by (auto simp: fold_key_def is_upper_def)

lemma fold_key_cases: "fold_key x = x \<or> is_lower (fold_key x)"
  by (auto simp: fold_key_def is_upper_def is_lower_def)

lemma fold_key_newline [simp]: "(fold_key x = 10) = (x = 10)"
  by (auto simp: fold_key_def is_upper_def)


lemma orbit_lower:
  assumes "is_lower l"
  shows "fold_key l = l" and "fold_key (l - 32) = l" and "is_upper (l - 32)"
  using assms by (auto simp: fold_key_def is_upper_def is_lower_def)

lemma fold_key_special: "fold_key 0x17F = 115" "fold_key 0x212A = 107"
  by (simp_all add: fold_key_def is_upper_def)

lemma orbit_simps:
  "fold_key x = 115 \<Longrightarrow> orbit x = [115, 83, 0x17F]"
  "fold_key x = 107 \<Longrightarrow> orbit x = [107, 75, 0x212A]"
  "is_lower (fold_key x) \<Longrightarrow> fold_key x \<noteq> 115 \<Longrightarrow> fold_key x \<noteq> 107 \<Longrightarrow>
     orbit x = [fold_key x, fold_key x - 32]"
  "\<not> is_lower (fold_key x) \<Longrightarrow> orbit x = [x]"
  by (simp_all add: orbit_def is_lower_def)

lemma orbit_cases:
  obtains "orbit x = [115, 83, 0x17F]" "fold_key x = 115"
  | "orbit x = [107, 75, 0x212A]" "fold_key x = 107"
  | "orbit x = [fold_key x, fold_key x - 32]" "is_lower (fold_key x)"
      "fold_key x \<noteq> 115" "fold_key x \<noteq> 107"
  | "orbit x = [x]" "\<not> is_lower (fold_key x)"
  using orbit_simps [of x] by blast

lemma orbit_fold_key:
  assumes "y \<in> set (orbit x)"
  shows "fold_key y = fold_key x"
proof (cases x rule: orbit_cases)
  case 1
  with assms have "y = 115 \<or> y = 83 \<or> y = 0x17F" by simp
  with 1 show ?thesis by (auto simp: fold_key_def is_upper_def)
next
  case 2
  with assms have "y = 107 \<or> y = 75 \<or> y = 0x212A" by simp
  with 2 show ?thesis by (auto simp: fold_key_def is_upper_def)
next
  case 3
  with assms orbit_lower [OF 3(2)] show ?thesis by auto
next
  case 4
  with assms show ?thesis by simp
qed

lemma orbit_not_space: "y \<in> set (orbit x) \<Longrightarrow> is_space y = is_space x"
  using orbit_fold_key [of y x] is_space_fold_key [of x] is_space_fold_key [of y] by simp

lemma orbit_not_digit: "y \<in> set (orbit x) \<Longrightarrow> is_digit y = is_digit x"
  using orbit_fold_key [of y x] is_digit_fold_key [of x] is_digit_fold_key [of y] by simp

lemma orbit_self: "x \<in> set (orbit x)"
  by (auto simp: orbit_def fold_key_def is_upper_def is_lower_def)

lemma citem_fold_CChar:
  assumes "\<not> is_upper a" and "\<not> is_lower a" and "a \<noteq> 0x17F" and "a \<noteq> 0x212A"
  shows "citem_fold fc (CChar a) x = (x = a)"
proof -
  have "x = a" if "a \<in> set (orbit x)"
  proof (cases x rule: orbit_cases)
    case 1
    with that have "a = 115 \<or> a = 83 \<or> a = 0x17F" by simp
    with assms show ?thesis by (auto simp: is_upper_def is_lower_def)
  next
    case 2
    with that have "a = 107 \<or> a = 75 \<or> a = 0x212A" by simp
    with assms show ?thesis by (auto simp: is_upper_def is_lower_def)
  next
    case 3
    with that orbit_lower(3) [OF 3(2)] assms show ?thesis by auto
  next
    case 4
    with that show ?thesis by simp
  qed
  then show ?thesis
    by (auto simp: citem_fold_def list_ex_iff)
qed

lemma citem_fold_CChar_lower: "citem_fold fc (CChar a) x \<Longrightarrow> fold_key x = fold_key a"
  by (auto simp: citem_fold_def list_ex_iff dest: orbit_fold_key)

lemma citem_fold_digits [simp]: "citem_fold fc (CRange 48 57) x = is_digit x"
proof -
  have "citem_in (CRange 48 57) y = is_digit y" for y
    by (simp add: is_digit_def)
  then show ?thesis
    unfolding citem_fold_def list_ex_iff using orbit_not_digit [of _ x] by auto
qed

lemma citem_fold_perl [simp]:
  "citem_fold fc PerlSpace x = is_space x"
  "citem_fold fc PerlNotSpace x = (\<not> is_space x)"
  unfolding citem_fold_def list_ex_iff using orbit_not_space [of _ x] by auto

text \<open>Under \<^verbatim>\<open>(?i)\<close> the class \<^verbatim>\<open>\w\<close> also holds the two characters that fold to a letter.\<close>

lemma citem_fold_word:
  "citem_fold fc PerlWord x = (is_word x \<or> (fc \<and> (x = 0x17F \<or> x = 0x212A)))"
proof -
  have w: "is_word 115" "is_word 83" "is_word 107" "is_word 75" "\<not> is_word 0x17F"
    "\<not> is_word 0x212A"
    by (simp_all add: is_word_def is_digit_def is_upper_def is_lower_def)
  have k: "fold_key x = 115 \<longleftrightarrow> x = 115 \<or> x = 83 \<or> x = 0x17F"
    "fold_key x = 107 \<longleftrightarrow> x = 107 \<or> x = 75 \<or> x = 0x212A"
    by (auto simp: fold_key_def is_upper_def)
  have n: "x \<noteq> 0x17F \<and> x \<noteq> 0x212A" if "fold_key x \<noteq> 115" "fold_key x \<noteq> 107"
    using that fold_key_special by auto
  show ?thesis
  proof (cases x rule: orbit_cases)
    case 1
    with k w show ?thesis by (auto simp: citem_fold_def)
  next
    case 2
    with k w show ?thesis by (auto simp: citem_fold_def)
  next
    case 3
    then have "is_word x" "is_word (fold_key x)" "x \<noteq> 0x17F" "x \<noteq> 0x212A"
      by (auto simp: fold_key_def is_word_def is_upper_def is_lower_def split: if_splits)
    with 3 show ?thesis by (auto simp: citem_fold_def)
  next
    case 4
    then have "x \<noteq> 0x17F" "x \<noteq> 0x212A"
      using fold_key_special by (auto simp: is_lower_def)
    with 4 show ?thesis by (auto simp: citem_fold_def)
  qed
qed

text \<open>The classes and the folding, on a given character.\<close>

lemmas char_bits =
  is_space_def [of "numeral n" for n] is_upper_def [of "numeral n" for n]
  is_lower_def [of "numeral n" for n] is_digit_def [of "numeral n" for n]
  is_word_def [of "numeral n" for n] fold_key_def [of "numeral n" for n]
  orbit_def [of "numeral n" for n] citem_fold_word [of _ "numeral n" for n]

lemma chr_eq_True [simp]: "chr_eq True a x = (fold_key x = fold_key a)"
  by (auto simp: chr_eq_def)

lemma chr_eq_lower: "chr_eq fc a x \<Longrightarrow> fold_key x = fold_key a"
  by (auto simp: chr_eq_def)

section \<open>The matcher\<close>

lemma prev_after_simps [simp]:
  "prev_after p [] = p"
  "prev_after p (x # m) = prev_after (Some x) m"
  "prev_after p (m @ [x]) = Some x"
  by (auto simp: prev_after_def)

lemma prev_after_append [simp]: "prev_after p (m @ n) = prev_after (prev_after p m) n"
  by (auto simp: prev_after_def)

lemma match_lit_Some:
  "match_lit fc w p s = Some (p', s') \<Longrightarrow>
     \<exists>m. s = m @ s' \<and> map fold_key m = map fold_key w \<and> p' = prev_after p m"
proof (induction fc w p s rule: match_lit.induct)
  case (3 fc a w p x xs)
  then have ok: "chr_eq fc a x" and rec: "match_lit fc w (Some x) xs = Some (p', s')"
    by (auto split: if_splits)
  from "3.IH" [OF ok rec] obtain m where
    "xs = m @ s'" "map fold_key m = map fold_key w" "p' = prev_after (Some x) m" by blast
  with chr_eq_lower [OF ok] show ?case
    by (intro exI [of _ "x # m"]) simp
qed auto

lemma match_lit_True_append:
  "map fold_key m = map fold_key w \<Longrightarrow> match_lit True w p (m @ s') = Some (prev_after p m, s')"
proof (induction w arbitrary: m p)
  case Nil
  then show ?case by simp
next
  case (Cons a w)
  then obtain x m' where m: "m = x # m'" by (cases m) auto
  with Cons show ?case by simp
qed

lemma greedy_set:
  "set (greedy P p s acc) =
     {(prev_after p m, s') | m s'. s = m @ s' \<and> (\<forall>x\<in>set m. P x)} \<union> set acc"
proof (induction P p s acc rule: greedy.induct)
  case (1 P p acc)
  then show ?case by auto
next
  case (2 P p x xs acc)
  show ?case
  proof (cases "P x")
    case True
    have "{(prev_after p m, s') | m s'. x # xs = m @ s' \<and> (\<forall>x\<in>set m. P x)} =
          insert (p, x # xs) {(prev_after (Some x) m, s') | m s'. xs = m @ s' \<and> (\<forall>x\<in>set m. P x)}"
      (is "?L = ?R")
    proof (intro set_eqI iffI)
      fix t assume "t \<in> ?L"
      then obtain m s' where t: "t = (prev_after p m, s')" and e: "x # xs = m @ s'"
        and a: "\<forall>x\<in>set m. P x" by blast
      show "t \<in> ?R"
      proof (cases m)
        case Nil
        with t e show ?thesis by simp
      next
        case (Cons y m')
        with t e a show ?thesis by auto
      qed
    next
      fix t assume "t \<in> ?R"
      then consider "t = (p, x # xs)"
        | m s' where "t = (prev_after (Some x) m, s')" "xs = m @ s'" "\<forall>x\<in>set m. P x" by blast
      then show "t \<in> ?L"
      proof cases
        case 1
        then show ?thesis by (auto intro!: exI [of _ "[]"])
      next
        case 2
        with True show ?thesis by (auto intro!: exI [of _ "x # m"])
      qed
    qed
    with True 2 show ?thesis by auto
  next
    case False
    have "{(prev_after p m, s') | m s'. x # xs = m @ s' \<and> (\<forall>x\<in>set m. P x)} = {(p, x # xs)}"
      using False by (auto simp: Cons_eq_append_conv)
    with False show ?thesis by auto
  qed
qed

lemma lazy_set:
  "set (lazy P p s) = {(prev_after p m, s') | m s'. s = m @ s' \<and> (\<forall>x\<in>set m. P x)}"
proof (induction P p s rule: lazy.induct)
  case (1 P p)
  then show ?case by auto
next
  case (2 P p x xs)
  show ?case
  proof (cases "P x")
    case True
    have "{(prev_after p m, s') | m s'. x # xs = m @ s' \<and> (\<forall>x\<in>set m. P x)} =
          insert (p, x # xs) {(prev_after (Some x) m, s') | m s'. xs = m @ s' \<and> (\<forall>x\<in>set m. P x)}"
      (is "?L = ?R")
    proof (intro set_eqI iffI)
      fix t assume "t \<in> ?L"
      then obtain m s' where t: "t = (prev_after p m, s')" and e: "x # xs = m @ s'"
        and a: "\<forall>x\<in>set m. P x" by blast
      show "t \<in> ?R"
      proof (cases m)
        case Nil
        with t e show ?thesis by simp
      next
        case (Cons y m')
        with t e a show ?thesis by auto
      qed
    next
      fix t assume "t \<in> ?R"
      then consider "t = (p, x # xs)"
        | m s' where "t = (prev_after (Some x) m, s')" "xs = m @ s'" "\<forall>x\<in>set m. P x" by blast
      then show "t \<in> ?L"
      proof cases
        case 1
        then show ?thesis by (auto intro!: exI [of _ "[]"])
      next
        case 2
        with True show ?thesis by (auto intro!: exI [of _ "x # m"])
      qed
    qed
    with True 2 show ?thesis by auto
  next
    case False
    have "{(prev_after p m, s') | m s'. x # xs = m @ s' \<and> (\<forall>x\<in>set m. P x)} = {(p, x # xs)}"
      using False by (auto simp: Cons_eq_append_conv)
    with False show ?thesis by auto
  qed
qed



lemma rmatch_Star_set:
  "set (rmatch fc (Star a) (p, s, c)) =
     {(prev_after p m, s', c) | m s'. s = m @ s' \<and> (\<forall>x\<in>set m. atom_ok fc a x)}"
  by (auto simp: greedy_set image_iff)

lemma rmatch_LazyStar_set:
  "set (rmatch fc (LazyStar a) (p, s, c)) =
     {(prev_after p m, s', c) | m s'. s = m @ s' \<and> (\<forall>x\<in>set m. atom_ok fc a x)}"
  by (auto simp: lazy_set image_iff)

lemma rmatch_Plus_set:
  "set (rmatch fc (Plus a) (p, s, c)) =
     {(prev_after p m, s', c) | m s'. s = m @ s' \<and> m \<noteq> [] \<and> (\<forall>x\<in>set m. atom_ok fc a x)}"
proof (cases s)
  case Nil
  then show ?thesis by auto
next
  case (Cons x xs)
  show ?thesis
  proof (cases "atom_ok fc a x")
    case False
    with Cons show ?thesis by (auto simp: Cons_eq_append_conv)
  next
    case True
    have "{(prev_after p m, s', c) | m s'. x # xs = m @ s' \<and> m \<noteq> [] \<and> (\<forall>x\<in>set m. atom_ok fc a x)} =
          {(prev_after (Some x) m, s', c) | m s'. xs = m @ s' \<and> (\<forall>x\<in>set m. atom_ok fc a x)}"
      (is "?L = ?R")
    proof (intro set_eqI iffI)
      fix t assume "t \<in> ?L"
      then obtain m s' where t: "t = (prev_after p m, s', c)" and e: "x # xs = m @ s'"
        and n: "m \<noteq> []" and a: "\<forall>x\<in>set m. atom_ok fc a x" by blast
      from n obtain y m' where "m = y # m'" by (cases m) auto
      with t e a show "t \<in> ?R" by auto
    next
      fix t assume "t \<in> ?R"
      then obtain m s' where "t = (prev_after (Some x) m, s', c)" "xs = m @ s'"
        "\<forall>x\<in>set m. atom_ok fc a x" by blast
      with True show "t \<in> ?L" by (auto intro!: exI [of _ "x # m"])
    qed
    moreover have "set (rmatch fc (Plus a) (p, s, c)) = ?R"
      using True Cons by (auto simp: greedy_set image_iff)
    ultimately show ?thesis using Cons by simp
  qed
qed



lemma sub_ok_tl: "sub_ok (e # es) s \<Longrightarrow> sub_ok es s"
proof (induction s arbitrary: e es)
  case Nil
  then show ?case by simp
next
  case (Cons x xs)
  show ?case
  proof (cases es)
    case Nil
    then show ?thesis by simp
  next
    case (Cons e' es')
    with Cons.prems Cons.IH [of e es] Cons.IH [of e' es'] show ?thesis
      by (auto split: if_splits)
  qed
qed

lemma sub_ok_Cons: "sub_ok es xs \<Longrightarrow> sub_ok es (x # xs)"
  by (cases es) (auto dest: sub_ok_tl)

lemma sub_ok_left: "sub_ok es n \<Longrightarrow> sub_ok es (m @ n)"
  by (induction m) (auto intro: sub_ok_Cons)

lemma sub_ok_append: "sub_ok a m \<Longrightarrow> sub_ok b n \<Longrightarrow> sub_ok (a @ b) (m @ n)"
  by (induction a m rule: sub_ok.induct) (auto intro: sub_ok_left)

lemma sub_ok_right: "sub_ok es m \<Longrightarrow> sub_ok es (m @ n)"
  using sub_ok_append [of es m "[]" n] by simp

lemma sub_ok_prefix: "sub_ok (a @ b) s \<Longrightarrow> sub_ok a s"
  by (induction a s rule: sub_ok.induct) (auto split: if_splits)

lemma common_prefix_left: "\<exists>zs. xs = common_prefix xs ys @ zs"
  by (induction xs ys rule: common_prefix.induct) auto

lemma common_prefix_right: "\<exists>zs. ys = common_prefix xs ys @ zs"
  by (induction xs ys rule: common_prefix.induct) auto

lemma sub_ok_common_left: "sub_ok xs s \<Longrightarrow> sub_ok (common_prefix xs ys) s"
  using common_prefix_left [of xs ys] sub_ok_prefix by metis

lemma sub_ok_common_right: "sub_ok ys s \<Longrightarrow> sub_ok (common_prefix xs ys) s"
  using common_prefix_right [of ys xs] sub_ok_prefix by metis

lemma sub_ok_literal:
  "map fold_key m = map fold_key w \<Longrightarrow> sub_ok (map (\<lambda>x. Some (fold_key x)) w) m"
proof (induction w arbitrary: m)
  case Nil
  then show ?case by simp
next
  case (Cons a w)
  then obtain x m' where "m = x # m'" by (cases m) auto
  with Cons show ?case by (auto simp: el_ok_def)
qed

lemma needed_sound:
  "(p', s', c') \<in> set (rmatch fc re t) \<Longrightarrow> \<exists>m. fst (snd t) = m @ s' \<and> sub_ok (needed re) m"
  "(p', s', c') \<in> set (rmatch_seq fc rs t) \<Longrightarrow>
     \<exists>m. fst (snd t) = m @ s' \<and> sub_ok (needed_seq rs) m"
  "(p', s', c') \<in> set (rmatch_alt fc rs t) \<Longrightarrow>
     \<exists>m. fst (snd t) = m @ s' \<and> sub_ok (needed_alt rs) m"
proof (induction fc re t and fc rs t and fc rs t arbitrary: p' s' c' and p' s' c' and p' s' c'
    rule: rmatch_rmatch_seq_rmatch_alt.induct)
  case (1 fc w p s c)
  then obtain q where "match_lit fc w p s = Some (q, s')"
    by (cases "match_lit fc w p s") auto
  from match_lit_Some [OF this] obtain m where "s = m @ s'" "map fold_key m = map fold_key w"
    by blast
  then show ?case by (auto intro!: exI [of _ m] sub_ok_literal)
next
  case (2 fc a p s c)
  then obtain x where s: "s = x # s'" and ok: "atom_ok fc a x"
    by (auto split: list.splits if_splits)
  have "sub_ok (needed (One a)) [x]"
    using ok citem_fold_CChar_lower [of fc _ x]
    by (auto simp: el_ok_def split: atom.splits list.splits citem.splits if_splits)
  with s show ?case by (intro exI [of _ "[x]"]) auto
next
  case (3 fc a p s c)
  then show ?case by (auto simp: greedy_set)
next
  case (4 fc a p s c)
  then obtain x xs where s: "s = x # xs" by (cases s) auto
  with 4 obtain m where "xs = m @ s'" by (auto simp: greedy_set split: if_splits)
  with s show ?case by (intro exI [of _ "x # m"]) (auto simp: el_ok_def)
next
  case (5 fc a p s c)
  then show ?case by (auto simp: lazy_set)
next
  case (12 fc k re p s c)
  then show ?case by auto
next
  case (15 fc re rs t)
  then obtain p1 s1 c1 where t1: "(p1, s1, c1) \<in> set (rmatch fc re t)"
    and t2: "(p', s', c') \<in> set (rmatch_seq fc rs (p1, s1, c1))" by auto
  from "15.IH"(1) [OF t1] obtain m1 where m1: "fst (snd t) = m1 @ s1" "sub_ok (needed re) m1"
    by blast
  from "15.IH"(2) [OF t1 t2] obtain m2 where m2: "s1 = m2 @ s'" "sub_ok (needed_seq rs) m2"
    by auto
  from m1 m2 show ?case by (intro exI [of _ "m1 @ m2"]) (auto intro: sub_ok_append)
next
  case (17 fc re rs t)
  from "17.prems" consider "(p', s', c') \<in> set (rmatch fc re t)"
    | "(p', s', c') \<in> set (rmatch_alt fc rs t)" by auto
  then show ?case
  proof cases
    case 1
    from "17.IH"(1) [OF this] show ?thesis by (auto intro: sub_ok_common_left)
  next
    case 2
    then have "rs \<noteq> []" by auto
    with "17.IH"(2) [OF 2] show ?thesis by (auto intro: sub_ok_common_right)
  qed
qed (auto split: if_splits)

lemma lacks_no_match: "lacks re s \<Longrightarrow> rmatch fc re (p, s, c) = []"
proof (rule ccontr)
  assume l: "lacks re s" and "rmatch fc re (p, s, c) \<noteq> []"
  then obtain p' s' c' where "(p', s', c') \<in> set (rmatch fc re (p, s, c))"
    by (cases "rmatch fc re (p, s, c)") auto
  from needed_sound(1) [OF this] obtain m where "s = m @ s'" "sub_ok (needed re) m" by auto
  with l show False by (auto simp: lacks_def sub_ok_right)
qed

lemma lacks_Cons: "lacks re (x # xs) \<Longrightarrow> lacks re xs"
  by (auto simp: lacks_def intro: sub_ok_Cons)

lemmas replaceAll_unfold =
  replaceAll.simps [of _ _ _ _ "[]"] replaceAll.simps [of _ _ _ _ "_ # _"]

lemma replaceAll_no_match:
  "\<not> matchFrom re p s \<Longrightarrow> replaceAll re repl fresh p s = s"
  by (induction s arbitrary: p fresh) (auto simp: replaceAll_unfold split: list.splits)

lemma matchFrom_lacks: "lacks re s \<Longrightarrow> \<not> matchFrom re p s"
  by (induction s arbitrary: p) (auto simp: lacks_no_match dest: lacks_Cons split: list.splits)

lemma process_eval:
  "process rm text =
     (if lacks (r rm) text then text else replaceAll (r rm) (replacement rm) True None text)"
  by (simp add: process_def ReplaceAllString_def replaceAll_no_match matchFrom_lacks)

lemma MatchString_eval:
  "MatchString re s = (if lacks re s then False else matchFrom re None s)"
  by (simp add: MatchString_def matchFrom_lacks)

section \<open>The classifier patterns\<close>

lemma matchFrom_anchored: "\<not> matchFrom (FoldCase (Concat (BeginText # rs))) (Some x) s"
  by (induction s arbitrary: x) auto

lemma MatchString_anchored:
  "MatchString (FoldCase (Concat (BeginText # rs))) s =
     (rmatch_seq True rs (None, s, Map.empty) \<noteq> [])"
  by (cases s) (auto simp: MatchString_def matchFrom_anchored split: list.splits)

lemma concat_map_concat_map:
  "concat (map (\<lambda>t. concat (map f (g t))) ts) = concat (map f (concat (map g ts)))"
  by (induction ts) auto

lemma rmatch_seq_append:
  "rmatch_seq fc (xs @ rs) t = concat (map (rmatch_seq fc rs) (rmatch_seq fc xs t))"
proof (induction xs arbitrary: t)
  case Nil
  then show ?case by simp
next
  case (Cons re xs)
  have e: "rmatch_seq fc (xs @ rs) = (\<lambda>t1. concat (map (rmatch_seq fc rs) (rmatch_seq fc xs t1)))"
    by (rule ext) (rule Cons)
  have "rmatch_seq fc ((re # xs) @ rs) t =
        concat (map (\<lambda>t1. concat (map (rmatch_seq fc rs) (rmatch_seq fc xs t1))) (rmatch fc re t))"
    by (simp add: e)
  also have "\<dots> = concat (map (rmatch_seq fc rs) (concat (map (rmatch_seq fc xs) (rmatch fc re t))))"
    by (rule concat_map_concat_map)
  finally show ?case by simp
qed

lemma rmatch_seq_Concat: "rmatch_seq fc (Concat xs # rs) t = rmatch_seq fc (xs @ rs) t"
  by (simp add: rmatch_seq_append)

lemma rmatch_seq_Alternate2:
  "rmatch_seq fc (Alternate [a, b] # rs) t = rmatch_seq fc (a # rs) t @ rmatch_seq fc (b # rs) t"
  by simp

lemma rmatch_seq_EmptyMatch: "rmatch_seq fc (EmptyMatch # rs) t = rmatch_seq fc rs t"
  by simp

lemma seq_empty_iff:
  "(rmatch_seq fc (re # rs) t = []) = (\<forall>t1\<in>set (rmatch fc re t). rmatch_seq fc rs t1 = [])"
  by auto

lemma decides_Nil: "decides fc [] (\<lambda>s. True)"
  by (simp add: decides_def)

lemma ci_prefix_iff: "ci_prefix w s = (\<exists>m s'. s = m @ s' \<and> map fold_key m = map fold_key w)"
proof
  assume "ci_prefix w s"
  then have "s = take (length w) s @ drop (length w) s \<and>
      map fold_key (take (length w) s) = map fold_key w"
    by (simp add: ci_prefix_def)
  then show "\<exists>m s'. s = m @ s' \<and> map fold_key m = map fold_key w" by blast
next
  assume "\<exists>m s'. s = m @ s' \<and> map fold_key m = map fold_key w"
  then obtain m s' where "s = m @ s'" "map fold_key m = map fold_key w" by blast
  moreover from this have "length m = length w" using map_eq_imp_length_eq by blast
  ultimately show "ci_prefix w s" by (simp add: ci_prefix_def)
qed

lemma decides_Literal:
  assumes "decides True rs F"
  shows "decides True (Literal w # rs) (\<lambda>s. ci_prefix w s \<and> F (drop (length w) s))"
  unfolding decides_def
proof (intro allI)
  fix p s c
  show "(rmatch_seq True (Literal w # rs) (p, s, c) = []) =
        (\<not> (ci_prefix w s \<and> F (drop (length w) s)))"
  proof (cases "ci_prefix w s")
    case True
    then have "map fold_key (take (length w) s) = map fold_key w" by (simp add: ci_prefix_def)
    from match_lit_True_append [OF this, of p "drop (length w) s"]
    have "match_lit True w p s = Some (prev_after p (take (length w) s), drop (length w) s)"
      by simp
    with True assms show ?thesis by (simp add: decides_def)
  next
    case False
    have "match_lit True w p s = None"
    proof (cases "match_lit True w p s")
      case (Some a)
      then obtain p' s' where "match_lit True w p s = Some (p', s')" by (cases a) auto
      from match_lit_Some [OF this] False show ?thesis by (auto simp: ci_prefix_iff)
    qed simp
    with False show ?thesis by simp
  qed
qed

lemma dropWhile_split:
  "s = m @ s' \<Longrightarrow> \<forall>x\<in>set m. P x \<Longrightarrow> s' \<noteq> [] \<Longrightarrow> \<not> P (hd s') \<Longrightarrow> dropWhile P s = s'"
  by (cases s') (auto simp: dropWhile_append3)

lemma decides_Star_space:
  assumes d: "decides fc rs F" and ns: "\<And>s. F s \<Longrightarrow> s \<noteq> [] \<and> \<not> is_space (hd s)"
  shows "decides fc (Star (CharClass False [PerlSpace]) # rs) (\<lambda>s. F (dropWhile is_space s))"
  unfolding decides_def
proof (intro allI)
  fix p s c
  have "(\<exists>m s'. s = m @ s' \<and> (\<forall>x\<in>set m. is_space x) \<and> F s') = F (dropWhile is_space s)"
  proof
    assume "\<exists>m s'. s = m @ s' \<and> (\<forall>x\<in>set m. is_space x) \<and> F s'"
    then obtain m s' where m: "s = m @ s'" "\<forall>x\<in>set m. is_space x" "F s'" by blast
    with ns [of s'] dropWhile_split [of s m s' is_space] show "F (dropWhile is_space s)" by simp
  next
    assume "F (dropWhile is_space s)"
    then have "s = takeWhile is_space s @ dropWhile is_space s \<and>
        (\<forall>x\<in>set (takeWhile is_space s). is_space x) \<and> F (dropWhile is_space s)"
      by (auto dest: set_takeWhileD)
    then show "\<exists>m s'. s = m @ s' \<and> (\<forall>x\<in>set m. is_space x) \<and> F s'" by blast
  qed
  with d show "(rmatch_seq fc (Star (CharClass False [PerlSpace]) # rs) (p, s, c) = []) =
        (\<not> F (dropWhile is_space s))"
    unfolding seq_empty_iff rmatch_Star_set decides_def by auto
qed

lemma decides_Plus_space:
  assumes d: "decides fc rs F" and ns: "\<And>s. F s \<Longrightarrow> s \<noteq> [] \<and> \<not> is_space (hd s)"
  shows "decides fc (Plus (CharClass False [PerlSpace]) # rs)
           (\<lambda>s. case s of [] \<Rightarrow> False | x # xs \<Rightarrow> is_space x \<and> F (dropWhile is_space xs))"
  unfolding decides_def
proof (intro allI)
  fix p s c
  have "(\<exists>m s'. s = m @ s' \<and> m \<noteq> [] \<and> (\<forall>x\<in>set m. is_space x) \<and> F s') =
        (case s of [] \<Rightarrow> False | x # xs \<Rightarrow> is_space x \<and> F (dropWhile is_space xs))"
  proof
    assume "\<exists>m s'. s = m @ s' \<and> m \<noteq> [] \<and> (\<forall>x\<in>set m. is_space x) \<and> F s'"
    then obtain m s' where m: "s = m @ s'" "m \<noteq> []" "\<forall>x\<in>set m. is_space x" "F s'" by blast
    then obtain x m' where x: "m = x # m'" by (cases m) auto
    with m ns [of s'] dropWhile_split [of "m' @ s'" m' s' is_space]
    show "case s of [] \<Rightarrow> False | x # xs \<Rightarrow> is_space x \<and> F (dropWhile is_space xs)" by simp
  next
    assume a: "case s of [] \<Rightarrow> False | x # xs \<Rightarrow> is_space x \<and> F (dropWhile is_space xs)"
    then obtain x xs where s: "s = x # xs" "is_space x" "F (dropWhile is_space xs)"
      by (cases s) auto
    then have "s = (x # takeWhile is_space xs) @ dropWhile is_space xs \<and>
        x # takeWhile is_space xs \<noteq> [] \<and>
        (\<forall>y\<in>set (x # takeWhile is_space xs). is_space y) \<and> F (dropWhile is_space xs)"
      by (auto dest: set_takeWhileD)
    then show "\<exists>m s'. s = m @ s' \<and> m \<noteq> [] \<and> (\<forall>x\<in>set m. is_space x) \<and> F s'" by blast
  qed
  with d show "(rmatch_seq fc (Plus (CharClass False [PerlSpace]) # rs) (p, s, c) = []) =
        (\<not> (case s of [] \<Rightarrow> False | x # xs \<Rightarrow> is_space x \<and> F (dropWhile is_space xs)))"
    unfolding seq_empty_iff rmatch_Plus_set decides_def by auto
qed

lemma decides_Capture:
  assumes d: "decides fc rs F" and g: "decides fc (re # rs) G"
  shows "decides fc (Capture k re # rs) G"
  unfolding decides_def
proof (intro allI)
  fix p s c
  have "(rmatch_seq fc (Capture k re # rs) (p, s, c) = []) =
        (\<forall>t\<in>set (rmatch fc re (p, s, c)). \<not> F (fst (snd t)))"
    using d unfolding seq_empty_iff decides_def by (auto simp: image_iff split: prod.splits)
  also have "\<dots> = (rmatch_seq fc (re # rs) (p, s, c) = [])"
    using d unfolding seq_empty_iff decides_def by (auto split: prod.splits)
  also have "\<dots> = (\<not> G s)"
    using g by (simp add: decides_def)
  finally show "(rmatch_seq fc (Capture k re # rs) (p, s, c) = []) = (\<not> G s)" .
qed

lemma decides_Alternate2:
  assumes "decides fc (a # rs) F" and "decides fc (b # rs) G"
  shows "decides fc (Alternate [a, b] # rs) (\<lambda>s. F s \<or> G s)"
  using assms unfolding decides_def rmatch_seq_Alternate2 by auto

lemma decides_Concat:
  assumes "decides fc (xs @ rs) F"
  shows "decides fc (Concat xs # rs) F"
  using assms unfolding decides_def rmatch_seq_Concat by auto

lemma decides_EmptyMatch:
  assumes "decides fc rs F"
  shows "decides fc (EmptyMatch # rs) F"
  using assms unfolding decides_def by auto

lemma ci_prefix_first: "ci_prefix (a # w) s \<Longrightarrow> s \<noteq> [] \<and> fold_key (hd s) = fold_key a"
  by (cases s) (auto simp: ci_prefix_def)

lemma ci_prefix_not_space:
  "ci_prefix (a # w) s \<Longrightarrow> \<not> is_space a \<Longrightarrow> s \<noteq> [] \<and> \<not> is_space (hd s)"
  using ci_prefix_first [of a w s] is_space_fold_key [of "hd s"] is_space_fold_key [of a] by auto


section \<open>Classifier patterns\<close>

lemma decides_apply: "decides fc rs F \<Longrightarrow> (rmatch_seq fc rs (p, s, c) \<noteq> []) = F s"
  by (simp add: decides_def)

lemma starts_not_space:
  "starts ((a # w) # ws) s \<Longrightarrow> \<not> is_space a \<Longrightarrow> s \<noteq> [] \<and> \<not> is_space (hd s)"
  by (cases ws) (auto dest: ci_prefix_not_space)

lemma starts_ns:
  "starts (w # ws) s \<Longrightarrow> w \<noteq> [] \<Longrightarrow> \<not> is_space (hd w) \<Longrightarrow> s \<noteq> [] \<and> \<not> is_space (hd s)"
  using starts_not_space [of "hd w" "tl w" ws s] by simp

lemma rmatch_seq_Concat_mid:
  "rmatch_seq fc (xs @ Concat ys # rs) t = rmatch_seq fc (xs @ ys @ rs) t"
proof -
  have "rmatch_seq fc (Concat ys # rs) = rmatch_seq fc (ys @ rs)"
    by (rule ext) (rule rmatch_seq_Concat)
  then show ?thesis
    unfolding rmatch_seq_append [of _ xs] by simp
qed

lemma decides_Concat_mid:
  "decides fc (xs @ ys @ rs) F \<Longrightarrow> decides fc (xs @ Concat ys # rs) F"
  unfolding decides_def rmatch_seq_Concat_mid by simp

lemma starts1_eq: "starts [w] = ci_prefix w"
  by (rule ext) simp

lemma decides_kw1: "decides True [Literal w] (starts [w])"
  using decides_Literal [OF decides_Nil, of w] by (simp add: starts1_eq)

lemma decides_kw2:
  assumes "v \<noteq> []" and "\<not> is_space (hd v)"
  shows "decides True [Literal w, Plus (CharClass False [PerlSpace]), Literal v] (starts [w, v])"
proof -
  have "decides True [Plus (CharClass False [PerlSpace]), Literal v]
          (\<lambda>s. case s of [] \<Rightarrow> False | x # xs \<Rightarrow> is_space x \<and> starts [v] (dropWhile is_space xs))"
    by (rule decides_Plus_space [OF decides_kw1]) (use assms starts_ns in blast)
  from decides_Literal [OF this, of w] show ?thesis
    by (simp add: decides_def)
qed

lemma decides_kw3:
  assumes "v \<noteq> []" and "\<not> is_space (hd v)" and "u \<noteq> []" and "\<not> is_space (hd u)"
  shows "decides True [Literal w, Plus (CharClass False [PerlSpace]), Literal v,
                       Plus (CharClass False [PerlSpace]), Literal u]
           (starts [w, v, u])"
proof -
  have "decides True [Plus (CharClass False [PerlSpace]), Literal v,
                      Plus (CharClass False [PerlSpace]), Literal u]
          (\<lambda>s. case s of [] \<Rightarrow> False
                | x # xs \<Rightarrow> is_space x \<and> starts [v, u] (dropWhile is_space xs))"
    by (rule decides_Plus_space [OF decides_kw2 [OF assms(3,4)]])
       (use assms starts_ns in blast)
  from decides_Literal [OF this, of w] show ?thesis
    by (simp add: decides_def)
qed

lemma classifier_leading_space:
  assumes d: "decides True rs F" and ns: "\<And>s. F s \<Longrightarrow> s \<noteq> [] \<and> \<not> is_space (hd s)"
  shows "MatchString (FoldCase (Concat (BeginText # Star (CharClass False [PerlSpace]) # rs))) S =
         F (dropWhile is_space S)"
  unfolding MatchString_anchored
  using decides_apply [OF decides_Star_space [OF d ns]] by simp

lemma IsCreateTable_starts:
  "IsCreateTable S = starts [ustr ''create'', ustr ''table''] (dropWhile is_space S)"
proof -
  have d: "decides True [Concat [Literal (ustr ''create''), Plus (CharClass False [PerlSpace]), Literal (ustr ''table'')]]
            (starts [ustr ''create'', ustr ''table''])"
    by (rule decides_Concat) (simp add: decides_kw2 is_space_def)
  have ns: "s \<noteq> [] \<and> \<not> is_space (hd s)" if "starts [ustr ''create'', ustr ''table''] s" for s
    using that by (auto dest!: starts_ns simp: is_space_def simp del: starts.simps)
  show ?thesis
    unfolding IsCreateTable_def identifyCreateTableStatement_def
    using classifier_leading_space [OF d ns, of S] by simp
qed

lemma IsAlterTable_starts:
  "IsAlterTable S = starts [ustr ''alter'', ustr ''table''] (dropWhile is_space S)"
proof -
  have d: "decides True [Concat [Literal (ustr ''alter''), Plus (CharClass False [PerlSpace]), Literal (ustr ''table'')]]
            (starts [ustr ''alter'', ustr ''table''])"
    by (rule decides_Concat) (simp add: decides_kw2 is_space_def)
  have ns: "s \<noteq> [] \<and> \<not> is_space (hd s)" if "starts [ustr ''alter'', ustr ''table''] s" for s
    using that by (auto dest!: starts_ns simp: is_space_def simp del: starts.simps)
  show ?thesis
    unfolding IsAlterTable_def identifyAlterTableStatement_def
    using classifier_leading_space [OF d ns, of S] by simp
qed

lemma IsDropIndex_starts:
  "IsDropIndex S = starts [ustr ''drop'', ustr ''index''] (dropWhile is_space S)"
proof -
  have d: "decides True [Concat [Literal (ustr ''drop''), Plus (CharClass False [PerlSpace]), Literal (ustr ''index'')]]
            (starts [ustr ''drop'', ustr ''index''])"
    by (rule decides_Concat) (simp add: decides_kw2 is_space_def)
  have ns: "s \<noteq> [] \<and> \<not> is_space (hd s)" if "starts [ustr ''drop'', ustr ''index''] s" for s
    using that by (auto dest!: starts_ns simp: is_space_def simp del: starts.simps)
  show ?thesis
    unfolding IsDropIndex_def identifyDropIndexStatement_def
    using classifier_leading_space [OF d ns, of S] by simp
qed

lemma IsInsert_starts:
  "IsInsert S = (starts [ustr ''insert''] (dropWhile is_space S) \<or> starts [ustr ''replace''] (dropWhile is_space S))"
proof -
  have a: "decides True [Concat [Literal (ustr ''insert'')]] (starts [ustr ''insert''])"
    by (rule decides_Concat) (simp add: decides_kw1)
  have b: "decides True [Concat [Literal (ustr ''replace'')]] (starts [ustr ''replace''])"
    by (rule decides_Concat) (simp add: decides_kw1)
  have d: "decides True [Capture 1 (Alternate [Concat [Literal (ustr ''insert'')], Concat [Literal (ustr ''replace'')]])]
            (\<lambda>s. starts [ustr ''insert''] s \<or> starts [ustr ''replace''] s)"
    by (rule decides_Capture [OF decides_Nil decides_Alternate2 [OF a b]])
  have ns: "s \<noteq> [] \<and> \<not> is_space (hd s)" if "starts [ustr ''insert''] s \<or> starts [ustr ''replace''] s" for s
    using that by (auto dest!: starts_ns simp: is_space_def simp del: starts.simps)
  show ?thesis
    unfolding IsInsert_def identifyInsertStatement_def
    using classifier_leading_space [OF d ns, of S] by simp
qed

lemma IsCreateIndex_starts:
  "IsCreateIndex S = (starts [ustr ''create'', ustr ''unique'', ustr ''index''] (dropWhile is_space S)
                      \<or> starts [ustr ''create'', ustr ''index''] (dropWhile is_space S))"
proof -
  let ?sp = "Plus (CharClass False [PerlSpace])"
  have tail: "decides True [Concat [?sp, Literal (ustr ''index'')]]
      (\<lambda>s. case s of [] \<Rightarrow> False | x # xs \<Rightarrow> is_space x \<and> starts [ustr ''index''] (dropWhile is_space xs))"
    by (rule decides_Concat, simp only: append.simps, rule decides_Plus_space [OF decides_kw1])
       (auto dest!: starts_ns simp: is_space_def simp del: starts.simps)
  have a0: "decides True [?sp, Literal (ustr ''index'')]
      (\<lambda>s. case s of [] \<Rightarrow> False | x # xs \<Rightarrow> is_space x \<and> starts [ustr ''index''] (dropWhile is_space xs))"
    by (rule decides_Plus_space [OF decides_kw1])
       (auto dest!: starts_ns simp: is_space_def simp del: starts.simps)
  have a1: "decides True [?sp, Literal (ustr ''unique''), ?sp, Literal (ustr ''index'')]
      (\<lambda>s. case s of [] \<Rightarrow> False
            | x # xs \<Rightarrow> is_space x \<and> starts [ustr ''unique'', ustr ''index''] (dropWhile is_space xs))"
    by (rule decides_Plus_space [OF decides_kw2])
       (auto dest!: starts_ns simp: is_space_def simp del: starts.simps)
  have a: "decides True [Concat [?sp, Literal (ustr ''unique'')], Concat [?sp, Literal (ustr ''index'')]]
      (\<lambda>s. case s of [] \<Rightarrow> False
            | x # xs \<Rightarrow> is_space x \<and> starts [ustr ''unique'', ustr ''index''] (dropWhile is_space xs))"
    using decides_Concat_mid [of True "[?sp, Literal (ustr ''unique'')]" "[?sp, Literal (ustr ''index'')]" "[]"] a1
    by (intro decides_Concat) simp
  have b: "decides True [EmptyMatch, Concat [?sp, Literal (ustr ''index'')]]
      (\<lambda>s. case s of [] \<Rightarrow> False | x # xs \<Rightarrow> is_space x \<and> starts [ustr ''index''] (dropWhile is_space xs))"
    by (rule decides_EmptyMatch [OF tail])
  have c: "decides True [Capture 1 (Alternate [Concat [?sp, Literal (ustr ''unique'')], EmptyMatch]),
                         Concat [?sp, Literal (ustr ''index'')]]
      (\<lambda>s. (case s of [] \<Rightarrow> False
             | x # xs \<Rightarrow> is_space x \<and> starts [ustr ''unique'', ustr ''index''] (dropWhile is_space xs))
          \<or> (case s of [] \<Rightarrow> False
             | x # xs \<Rightarrow> is_space x \<and> starts [ustr ''index''] (dropWhile is_space xs)))"
    by (rule decides_Capture [OF tail decides_Alternate2 [OF a b]])
  have d: "decides True [Concat [Literal (ustr ''create'')],
                         Capture 1 (Alternate [Concat [?sp, Literal (ustr ''unique'')], EmptyMatch]),
                         Concat [?sp, Literal (ustr ''index'')]]
      (\<lambda>s. starts [ustr ''create'', ustr ''unique'', ustr ''index''] s \<or> starts [ustr ''create'', ustr ''index''] s)"
  proof -
    have "(\<lambda>s. starts [ustr ''create'', ustr ''unique'', ustr ''index''] s \<or>
              starts [ustr ''create'', ustr ''index''] s) =
          (\<lambda>s. ci_prefix (ustr ''create'') s \<and>
             ((case drop (length (ustr ''create'')) s of [] \<Rightarrow> False
               | x # xs \<Rightarrow> is_space x \<and>
                   starts [ustr ''unique'', ustr ''index''] (dropWhile is_space xs)) \<or>
              (case drop (length (ustr ''create'')) s of [] \<Rightarrow> False
               | x # xs \<Rightarrow> is_space x \<and> starts [ustr ''index''] (dropWhile is_space xs))))"
      by (rule ext) (simp only: starts.simps conj_disj_distribL)
    then show ?thesis
      by (simp only:) (rule decides_Concat, simp only: append.simps, rule decides_Literal [OF c])
  qed
  have ns: "s \<noteq> [] \<and> \<not> is_space (hd s)" if "starts [ustr ''create'', ustr ''unique'', ustr ''index''] s \<or> starts [ustr ''create'', ustr ''index''] s" for s
    using that by (auto dest!: starts_ns simp: is_space_def simp del: starts.simps)
  show ?thesis
    unfolding IsCreateIndex_def identifyCreateIndexStatement_def
    using classifier_leading_space [OF d ns, of S] by simp
qed


section \<open>Keyword prefixes: letter case and leading whitespace\<close>

lemma starts_first:
  "starts ((a # w) # ws) s \<Longrightarrow> s \<noteq> [] \<and> fold_key (hd s) = fold_key a"
  by (cases ws) (auto dest: ci_prefix_first)

lemma is_space_o_fold_key: "is_space \<circ> fold_key = is_space"
  by (rule ext) simp

lemma dropWhile_space_fold_key:
  "dropWhile is_space (map fold_key s) = map fold_key (dropWhile is_space s)"
  by (simp add: dropWhile_map is_space_o_fold_key)

lemma ci_prefix_fold_key: "ci_prefix w (map fold_key s) = ci_prefix w s"
proof -
  have "fold_key \<circ> fold_key = fold_key" by (rule ext) (simp add: fold_key_idem)
  then show ?thesis by (simp add: ci_prefix_def take_map)
qed

lemma starts_fold_key: "starts ws (map fold_key s) = starts ws s"
proof (induction ws s rule: starts.induct)
  case (1 s)
  then show ?case by simp
next
  case (2 w s)
  then show ?case by (simp add: ci_prefix_fold_key)
next
  case (3 w w' ws s)
  show ?case
  proof (cases "drop (length w) s")
    case Nil
    then show ?thesis by (simp add: ci_prefix_fold_key drop_map [symmetric])
  next
    case (Cons x xs)
    from 3 [OF Cons] have "starts (w' # ws) (map fold_key (dropWhile is_space xs)) =
        starts (w' # ws) (dropWhile is_space xs)" .
    moreover from Cons have "drop (length w) (map fold_key s) = fold_key x # map fold_key xs"
      by (simp add: drop_map)
    ultimately show ?thesis
      using Cons by (simp add: ci_prefix_fold_key dropWhile_space_fold_key)
  qed
qed

lemma starts_case_change:
  "map fold_key s' = map fold_key s \<Longrightarrow> starts ws s' = starts ws s"
  using starts_fold_key [of ws s] starts_fold_key [of ws s'] by simp

lemma dropWhile_case_change:
  "map fold_key s' = map fold_key s \<Longrightarrow>
   map fold_key (dropWhile is_space s') = map fold_key (dropWhile is_space s)"
  using dropWhile_space_fold_key [of s] dropWhile_space_fold_key [of s'] by simp

lemma dropWhile_leading_space:
  "\<forall>x\<in>set ws. is_space x \<Longrightarrow> dropWhile is_space (ws @ s) = dropWhile is_space s"
  by (induction ws) auto

lemma starts_excl:
  "starts ((a # w) # ws) s \<Longrightarrow> starts ((b # v) # vs) s \<Longrightarrow> fold_key a = fold_key b"
  using starts_first [of a w ws s] starts_first [of b v vs s] by simp

lemma starts_second:
  "starts (w # (a # v) # ws) s \<Longrightarrow> starts (w # (b # u) # us) s \<Longrightarrow> fold_key a = fold_key b"
  by (auto split: list.splits dest: starts_excl simp del: starts.simps(3) simp: starts.simps(3) [of w])


section \<open>Classifier facts\<close>

lemma applyConversions_foldl:
  "applyConversions s rms = foldl (\<lambda>t rm. process rm t) s rms"
  by (induction rms arbitrary: s) simp_all

lemma dropWhile_space_starts:
  assumes "\<forall>x\<in>set ws. is_space x" and "starts (w # kws) s" and "w \<noteq> []"
    and "\<not> is_space (hd w)"
  shows "dropWhile is_space (ws @ s) = s"
  using starts_ns [OF assms(2,3,4)] assms(1) by (intro dropWhile_split [of _ ws]) auto

lemma create_table_prefix:
  assumes "map fold_key kw = ustr ''create table''"
  shows "starts [ustr ''create'', ustr ''table''] (kw @ rest)"
proof -
  have "starts [ustr ''create'', ustr ''table''] (map fold_key (kw @ rest))"
    using assms by (simp add: ci_prefix_def char_bits)
  then show ?thesis by (simp only: starts_fold_key)
qed

lemma classifiers_exclusive:
  "length (filter id [IsInsert S, IsCreateTable S, IsCreateIndex S, IsDropIndex S, IsAlterTable S])
   \<le> 1"
proof -
  let ?s = "dropWhile is_space S"
  have 1: "\<not> (starts [a # w] ?s \<and> starts ((b # v) # vs) ?s)" if "fold_key a \<noteq> fold_key b"
    for a b w v vs using that starts_excl by blast
  have 2: "\<not> (starts ((a # w) # ws) ?s \<and> starts ((b # v) # vs) ?s)" if "fold_key a \<noteq> fold_key b"
    for a b w v ws vs using that starts_excl by blast
  have 3: "\<not> (starts (w # (a # v) # ws) ?s \<and> starts (w # (b # u) # us) ?s)"
    if "fold_key a \<noteq> fold_key b" for a b w v u ws us using that starts_second by blast
  have ic: "\<not> (IsInsert S \<and> IsCreateTable S)" "\<not> (IsInsert S \<and> IsCreateIndex S)"
    "\<not> (IsInsert S \<and> IsDropIndex S)" "\<not> (IsInsert S \<and> IsAlterTable S)"
    unfolding IsInsert_starts IsCreateTable_starts IsCreateIndex_starts IsDropIndex_starts
      IsAlterTable_starts
    using 2 [of "(rn CHR ''i'')" "(rn CHR ''c'')"] 2 [of "(rn CHR ''r'')" "(rn CHR ''c'')"]
      2 [of "(rn CHR ''i'')" "(rn CHR ''d'')"] 2 [of "(rn CHR ''r'')" "(rn CHR ''d'')"]
      2 [of "(rn CHR ''i'')" "(rn CHR ''a'')"] 2 [of "(rn CHR ''r'')" "(rn CHR ''a'')"]
    by (auto simp: char_bits simp del: starts.simps)
  have ct: "\<not> (IsCreateTable S \<and> IsCreateIndex S)"
    "\<not> (IsCreateTable S \<and> IsDropIndex S)" "\<not> (IsCreateTable S \<and> IsAlterTable S)"
    unfolding IsInsert_starts IsCreateTable_starts IsCreateIndex_starts IsDropIndex_starts
      IsAlterTable_starts
    using 2 [of "(rn CHR ''c'')" "(rn CHR ''d'')"] 2 [of "(rn CHR ''c'')" "(rn CHR ''a'')"]
      3 [of "(rn CHR ''t'')" "(rn CHR ''u'')"] 3 [of "(rn CHR ''t'')" "(rn CHR ''i'')"]
    by (auto simp: char_bits simp del: starts.simps)
  have ci: "\<not> (IsCreateIndex S \<and> IsDropIndex S)" "\<not> (IsCreateIndex S \<and> IsAlterTable S)"
    "\<not> (IsDropIndex S \<and> IsAlterTable S)"
    unfolding IsInsert_starts IsCreateTable_starts IsCreateIndex_starts IsDropIndex_starts
      IsAlterTable_starts
    using 2 [of "(rn CHR ''c'')" "(rn CHR ''d'')"] 2 [of "(rn CHR ''c'')" "(rn CHR ''a'')"]
      2 [of "(rn CHR ''d'')" "(rn CHR ''a'')"]
    by (auto simp: char_bits simp del: starts.simps)
  from ic ct ci show ?thesis by auto
qed

lemma classifiers_case_change:
  assumes "map fold_key S' = map fold_key S"
  shows "IsInsert S' = IsInsert S" "IsCreateTable S' = IsCreateTable S"
    "IsCreateIndex S' = IsCreateIndex S" "IsDropIndex S' = IsDropIndex S"
    "IsAlterTable S' = IsAlterTable S"
  unfolding IsInsert_starts IsCreateTable_starts IsCreateIndex_starts IsDropIndex_starts
    IsAlterTable_starts
  using starts_case_change [OF dropWhile_case_change [OF assms]] by simp_all

lemma classifiers_leading_space:
  assumes "\<forall>x\<in>set ws. is_space x"
  shows "IsInsert (ws @ S) = IsInsert S" "IsCreateTable (ws @ S) = IsCreateTable S"
    "IsCreateIndex (ws @ S) = IsCreateIndex S" "IsDropIndex (ws @ S) = IsDropIndex S"
    "IsAlterTable (ws @ S) = IsAlterTable S"
  unfolding IsInsert_starts IsCreateTable_starts IsCreateIndex_starts IsDropIndex_starts
    IsAlterTable_starts
  using dropWhile_leading_space [OF assms] by simp_all


section \<open>The replacement loop\<close>

lemma applyConversions_append:
  "applyConversions s (rms @ [rm]) = process rm (applyConversions s rms)"
  by (induction rms arbitrary: s) simp_all

lemma replaceAll_first_match:
  assumes "unmatched re p pre (m @ rest)"
    and "rmatch False re (prev_after p pre, m @ rest, Map.empty) = (p', rest, c) # ts"
    and "m \<noteq> []"
  shows "replaceAll re repl fresh p (pre @ m @ rest) =
         pre @ expand repl (c(0 \<mapsto> (m @ rest, rest))) @ replaceAll re repl True p' rest"
  using assms
proof (induction pre arbitrary: p fresh)
  case Nil
  then show ?case
    by (subst replaceAll.simps) (simp add: prev_after_def)
next
  case (Cons x xs)
  have "prev_after p (x # xs) = prev_after (Some x) xs"
    by (simp add: prev_after_def)
  with Cons.prems have "replaceAll re repl False (Some x) (xs @ m @ rest) =
      xs @ expand repl (c(0 \<mapsto> (m @ rest, rest))) @ replaceAll re repl True p' rest"
    by (intro Cons.IH) simp_all
  with Cons.prems(1) show ?case
    by (subst replaceAll.simps) simp
qed

lemma process_no_match: "\<not> MatchString (r rm) s \<Longrightarrow> process rm s = s"
  by (simp add: process_def ReplaceAllString_def MatchString_def replaceAll_no_match)

lemmas ev_match = char_bits citem_fold_CChar MatchString_eval lacks_def
  createTableConversions_def insertConversions_def generalConversions_def rmap_def
  word_before_def word_after_def extractName_def parse_num_def group_text_def el_ok_def
  prev_after_def


section \<open>The skip rule\<close>

lemma to_end_simps [simp]:
  "to_end []" "to_end ((p, s, c) # ts) = (s = [])"
  by (simp_all add: to_end_def)

lemma to_end_append: "to_end a \<Longrightarrow> to_end b \<Longrightarrow> to_end (a @ b)"
  by (cases a) (auto simp: to_end_def)

lemma to_end_concat_map: "(\<And>x. to_end (f x)) \<Longrightarrow> to_end (concat (map f xs))"
  by (induction xs) (auto intro: to_end_append)

lemma greedy_nonempty [simp]: "greedy P p s acc \<noteq> []"
  by (induction P p s acc rule: greedy.induct) auto

lemma greedy_set_nonempty: "\<exists>a b. (a, b) \<in> set (greedy P p s acc)"
  using greedy_nonempty [of P p s acc] by (cases "greedy P p s acc") auto

lemma greedy_all_hd:
  "\<forall>x\<in>set s. P x \<Longrightarrow> \<exists>ts. greedy P p s acc = (prev_after p s, []) # ts"
  by (induction P p s acc rule: greedy.induct) auto

lemma atom_ok_sS [simp]: "atom_ok fc (CharClass False [PerlSpace, PerlNotSpace]) x"
  by simp

lemma to_end_Plus_sS: "to_end (rmatch fc (Plus (CharClass False [PerlSpace, PerlNotSpace])) t)"
proof (cases t)
  case (fields p s c)
  show ?thesis
  proof (cases s)
    case Nil
    with fields show ?thesis by simp
  next
    case (Cons x xs)
    from greedy_all_hd [of xs "atom_ok fc (CharClass False [PerlSpace, PerlNotSpace])" "Some x" "[]"]
    obtain ts where "greedy (atom_ok fc (CharClass False [PerlSpace, PerlNotSpace])) (Some x) xs [] =
      (prev_after (Some x) xs, []) # ts" by auto
    with fields Cons show ?thesis by simp
  qed
qed

lemma to_end_seq_Plus_sS:
  "to_end (rmatch_seq fc (rs @ [Plus (CharClass False [PerlSpace, PerlNotSpace])]) t)"
proof -
  have "rmatch_seq fc [] = (\<lambda>t. [t])"
    by (rule ext) simp
  then have "rmatch_seq fc [re] = rmatch fc re" for re
    by (intro ext) simp
  then show ?thesis
    unfolding rmatch_seq_append by (intro to_end_concat_map) (simp add: to_end_Plus_sS)
qed

lemma to_end_Capture: "to_end (rmatch fc re t) \<Longrightarrow> to_end (rmatch fc (Capture k re) t)"
  by (cases t; cases "rmatch fc re t") (auto simp: to_end_def)

lemma replaceAll_whole:
  assumes "rmatch False re (None, s, Map.empty) \<noteq> []"
    and "to_end (rmatch False re (None, s, Map.empty))"
    and "s \<noteq> []"
    and "\<And>p. rmatch False re (p, [], Map.empty) = []"
  shows "replaceAll re [] True None s = []"
proof -
  from assms(1,2) obtain p' c ts where
    m: "rmatch False re (None, s, Map.empty) = (p', [], c) # ts"
    by (cases "rmatch False re (None, s, Map.empty)") (auto simp: to_end_def)
  have "replaceAll re [] True p' [] = []"
    by (subst replaceAll.simps) (simp add: assms(4))
  with m assms(3) show ?thesis
    by (subst replaceAll.simps) simp
qed

lemma applyConversions_app:
  "applyConversions s (a @ b) = applyConversions (applyConversions s a) b"
  by (induction a arbitrary: s) simp_all

lemma createTableConversions_split:
  "createTableConversions =
     take 11 createTableConversions @ createTableConversions ! 11 # drop 12 createTableConversions"
proof -
  have "11 < length createTableConversions" by (simp add: createTableConversions_def)
  from id_take_nth_drop [OF this] show ?thesis by simp
qed

lemma skip_rule:
  "createTableConversions ! 11 =
   \<lparr> r = FoldCase (Capture 1 (Concat ([Plus cls_sS, chr CHR ''/'', chr CHR ''*'',
          Concat [Plus cls_s, Literal (ustr ''sqlite3-skip''), Plus cls_s], chr CHR ''*'', chr CHR ''/'']
          @ [Plus cls_sS]))),
     replacement = [] \<rparr>"
  by (simp add: createTableConversions_def rmap_def)

lemma skip_rule_matches:
  assumes "pre \<noteq> []" and "post \<noteq> []"
  shows "rmatch False (r (createTableConversions ! 11))
           (None, pre @ (ustr ''/* sqlite3-skip */'') @ post, Map.empty) \<noteq> []"
proof -
  let ?c = "Map.empty :: captures"
  let ?rest = "[chr CHR ''/'', chr CHR ''*'',
          Concat [Plus cls_s, Literal (ustr ''sqlite3-skip''), Plus cls_s], chr CHR ''*'', chr CHR ''/'',
          Plus cls_sS]"
  have 1: "(prev_after None pre, (ustr ''/* sqlite3-skip */'') @ post, ?c) \<in>
      set (rmatch True (Plus cls_sS) (None, pre @ (ustr ''/* sqlite3-skip */'') @ post, ?c))"
    unfolding rmatch_Plus_set
    by (rule CollectI, rule exI [of _ pre], rule exI [of _ "(ustr ''/* sqlite3-skip */'') @ post"])
       (use assms(1) in simp)
  obtain y ys where post: "post = y # ys" using assms(2) by (cases post) auto
  have 2: "rmatch_seq True ?rest (prev_after None pre, (ustr ''/* sqlite3-skip */'') @ post, ?c) \<noteq> []"
    unfolding post by (simp add: char_bits citem_fold_CChar greedy_set_nonempty)
  from 1 2 have "rmatch_seq True (Plus cls_sS # ?rest)
      (None, pre @ (ustr ''/* sqlite3-skip */'') @ post, ?c) \<noteq> []"
    unfolding seq_empty_iff by blast
  then show ?thesis
    unfolding skip_rule by (simp del: rmatch_seq.simps)
qed

lemma skip_rule_to_end:
  "to_end (rmatch False (r (createTableConversions ! 11)) t)"
  unfolding skip_rule
  by (simp only: regexpMap.simps rmatch.simps(13) rmatch.simps(10) to_end_Capture
        to_end_seq_Plus_sS)

lemma skip_rule_empty_text: "rmatch False (r (createTableConversions ! 11)) (p, [], Map.empty) = []"
  unfolding skip_rule by simp

lemma skip_rule_process:
  assumes "pre \<noteq> []" and "post \<noteq> []"
  shows "process (createTableConversions ! 11) (pre @ (ustr ''/* sqlite3-skip */'') @ post) = []"
proof -
  have "replaceAll (r (createTableConversions ! 11)) [] True None
          (pre @ (ustr ''/* sqlite3-skip */'') @ post) = []"
    using assms(1)
    by (intro replaceAll_whole skip_rule_matches [OF assms] skip_rule_to_end skip_rule_empty_text)
       simp
  moreover have "replacement (createTableConversions ! 11) = []"
    by (simp add: skip_rule)
  ultimately show ?thesis by (simp add: process_def ReplaceAllString_def)
qed


section \<open>Steps of a sequence, as rules\<close>













section \<open>The first thread of a sequence that ends with a greedy repetition\<close>


lemma hd_stops_simps [simp]:
  "hd_stops P []" "hd_stops P ((p, [], c) # ts)" "hd_stops P ((p, x # xs, c) # ts) = (\<not> P x)"
  by (simp_all add: hd_stops_def)






section \<open>Splitting a text at the end of a run\<close>

lemma split_unique:
  assumes "a @ b = a' @ b'" and "\<forall>x\<in>set a. P x" and "\<forall>x\<in>set a'. P x"
    and "b = [] \<or> \<not> P (hd b)" and "b' = [] \<or> \<not> P (hd b')"
  shows "a = a' \<and> b = b'"
proof -
  have 1: "takeWhile P (u @ v) = u" if "\<forall>x\<in>set u. P x" "v = [] \<or> \<not> P (hd v)" for u v
    using that by (cases v) (auto simp: takeWhile_append2)
  from 1 [OF assms(2,4)] 1 [OF assms(3,5)] assms(1) have "a = a'" by simp
  with assms(1) show ?thesis by simp
qed



lemma stop_hd: "k \<noteq> [] \<Longrightarrow> \<not> P (hd k) \<Longrightarrow> takeWhile P (k @ y) = []"
  by (cases k) auto














section \<open>The date arithmetic rules for columns\<close>















section \<open>Evaluation of the translation on concrete statements\<close>

lemmas ev = char_bits citem_fold_CChar process_eval MatchString_eval lacks_def replaceAll_unfold
  createTableConversions_def insertConversions_def generalConversions_def rmap_def
  ToSqlite3Dialect_def ToSqlite3CreateTable_def ToSqlite3Insert_def
  IsCreateTable_def IsAlterTable_def IsInsert_def IsCreateIndex_def IsDropIndex_def
  identifyCreateTableStatement_def identifyAlterTableStatement_def identifyInsertStatement_def
  identifyCreateIndexStatement_def identifyDropIndexStatement_def
  word_before_def word_after_def extractName_def parse_num_def group_text_def el_ok_def

lemma alter_add_index_classified:
  "IsAlterTable (ustr ''ALTER TABLE t ADD INDEX idx_name (name)'') \<and>
   \<not> IsCreateTable (ustr ''ALTER TABLE t ADD INDEX idx_name (name)'')"
  by (simp add: ev)

lemma alter_add_index_create_path:
  "ToSqlite3CreateTable (ustr ''ALTER TABLE t ADD INDEX idx_name (name)'') =
   (ustr ''create index idx_name_t on t (name)'')"
  by (simp add: ev)

lemma insert_ignore_eval:
  "ToSqlite3Dialect (ustr ''INSERT IGNORE INTO t (a) VALUES (1)'') =
   (ustr ''insert or ignore INTO t (a) VALUES (1)'')"
  by (simp add: ev)

lemma empty_classifiers:
  "\<not> IsInsert []" "\<not> IsCreateTable []" "\<not> IsCreateIndex []" "\<not> IsDropIndex []"
  "\<not> IsAlterTable []"
  by (simp_all add: ev)

lemma empty_create_rules: "filter (\<lambda>rm. MatchString (r rm) []) createTableConversions = []"
  by (simp add: ev)

lemma empty_insert_rules: "filter (\<lambda>rm. MatchString (r rm) []) insertConversions = []"
  by (simp add: ev)

lemma empty_general_rules: "filter (\<lambda>rm. MatchString (r rm) []) generalConversions = []"
  by (simp add: ev)

lemma empty_translate: "ToSqlite3Dialect [] = []"
  by (simp add: ev)


section \<open>The dispatcher\<close>

text \<open>
  Claim C1. For every statement \<open>S\<close>, \<open>ToSqlite3Dialect S\<close> follows the decision order of the
  source: if \<open>IsCreateTable S\<close> it is the create/alter rule list applied to \<open>S\<close>; else if
  \<open>IsAlterTable S\<close> it is the create/alter rule list applied to \<open>S\<close>; otherwise the general rule
  list is applied to \<open>S\<close>, giving an intermediate \<open>I\<close>, and the result is the insert rule list
  applied to \<open>I\<close> if \<open>IsInsert I\<close>, and \<open>I\<close> unchanged otherwise.
\<close>
theorem C1_decision_order:
  "ToSqlite3Dialect S =
   (if IsCreateTable S then applyConversions S createTableConversions
    else if IsAlterTable S then applyConversions S createTableConversions
    else (let I = applyConversions S generalConversions
          in if IsInsert I then applyConversions I insertConversions else I))"
  by (simp add: ToSqlite3Dialect_def ToSqlite3CreateTable_def ToSqlite3Insert_def Let_def)

text \<open>
  Claim C3. For every statement \<open>S\<close> with \<open>IsAlterTable S\<close> (and not \<open>IsCreateTable S\<close>), the
  translation of \<open>S\<close> is what the CREATE TABLE path \<open>ToSqlite3CreateTable\<close> produces on \<open>S\<close>: the
  ALTER TABLE branch of the dispatcher applies the same rule list.
\<close>
theorem C3_alter_path_is_create_path:
  "IsAlterTable S \<Longrightarrow> \<not> IsCreateTable S \<Longrightarrow> ToSqlite3Dialect S = ToSqlite3CreateTable S"
  by (simp add: ToSqlite3Dialect_def)

text \<open>The hypotheses of C3 hold for the representative ALTER ADD INDEX statement.\<close>
theorem C3_witness:
  "IsAlterTable (ustr ''ALTER TABLE t ADD INDEX idx_name (name)'') \<and>
   \<not> IsCreateTable (ustr ''ALTER TABLE t ADD INDEX idx_name (name)'') \<and>
   ToSqlite3Dialect (ustr ''ALTER TABLE t ADD INDEX idx_name (name)'') =
   ToSqlite3CreateTable (ustr ''ALTER TABLE t ADD INDEX idx_name (name)'')"
  using C3_alter_path_is_create_path [of "(ustr ''ALTER TABLE t ADD INDEX idx_name (name)'')"]
    alter_add_index_classified by simp


section \<open>Worked statements\<close>

text \<open>
  Claim C7, as stated: the translation of \<open>ALTER TABLE t ADD INDEX idx_name (name)\<close> is
  \<open>CREATE INDEX idx_name_t ON t (name)\<close>. The replacement template of the rule is written in
  lower case (\<open>create index ${3}_${1} on $1 ($4)\<close>), so the result has lower-case keywords and
  the stated upper-case text is not what the code returns.
\<close>
theorem C7_counterexample:
  "ToSqlite3Dialect (ustr ''ALTER TABLE t ADD INDEX idx_name (name)'') \<noteq>
   (ustr ''CREATE INDEX idx_name_t ON t (name)'')"
  using alter_add_index_classified alter_add_index_create_path
  by (simp add: ToSqlite3Dialect_def)

text \<open>
  Claim C7, amended: the translation of \<open>ALTER TABLE t ADD INDEX idx_name (name)\<close> is
  \<open>create index idx_name_t on t (name)\<close>: the ADD INDEX clause becomes a standalone
  (lower-case) create index statement whose index name is the original index name, an
  underscore and the table name.
\<close>
theorem C7_add_index_lower_case:
  "ToSqlite3Dialect (ustr ''ALTER TABLE t ADD INDEX idx_name (name)'') =
   (ustr ''create index idx_name_t on t (name)'')"
  using alter_add_index_classified alter_add_index_create_path
  by (simp add: ToSqlite3Dialect_def)

text \<open>
  Claim C8, as stated: the translation of \<open>INSERT IGNORE INTO t (a) VALUES (1)\<close> is
  \<open>INSERT OR IGNORE INTO t (a) VALUES (1)\<close>. The replacement template of the rule is the
  lower-case text \<open>insert or ignore\<close>, so the stated upper-case prefix is not what the code
  returns.
\<close>
theorem C8_counterexample:
  "ToSqlite3Dialect (ustr ''INSERT IGNORE INTO t (a) VALUES (1)'') \<noteq>
   (ustr ''INSERT OR IGNORE INTO t (a) VALUES (1)'')"
  using insert_ignore_eval by simp

text \<open>
  Claim C8, amended: the translation of \<open>INSERT IGNORE INTO t (a) VALUES (1)\<close> is
  \<open>insert or ignore INTO t (a) VALUES (1)\<close>: the matched prefix is replaced by the lower-case
  \<open>insert or ignore\<close> and the rest of the statement is preserved.
\<close>
theorem C8_insert_ignore_lower_case:
  "ToSqlite3Dialect (ustr ''INSERT IGNORE INTO t (a) VALUES (1)'') =
   (ustr ''insert or ignore INTO t (a) VALUES (1)'')"
  by (rule insert_ignore_eval)

text \<open>
  Claim C10. On the empty string the five classifiers \<open>IsInsert\<close>, \<open>IsCreateTable\<close>,
  \<open>IsCreateIndex\<close>, \<open>IsDropIndex\<close> and \<open>IsAlterTable\<close> are all false, the translation of the
  empty string is the empty string, and no rule of the three rule lists matches the empty
  string.
\<close>
theorem C10_empty_string:
  "\<not> IsInsert [] \<and> \<not> IsCreateTable [] \<and> \<not> IsCreateIndex [] \<and> \<not> IsDropIndex [] \<and>
   \<not> IsAlterTable [] \<and> ToSqlite3Dialect [] = [] \<and>
   filter (\<lambda>rm. MatchString (r rm) [])
     (createTableConversions @ insertConversions @ generalConversions) = []"
  using empty_classifiers empty_create_rules empty_insert_rules empty_general_rules empty_translate
  by simp


lemma after_skip_rule: "applyConversions [] (drop 12 createTableConversions) = []"
  by (simp add: ev)

lemmas ev_create = char_bits citem_fold_CChar process_eval MatchString_eval lacks_def
  replaceAll_unfold createTableConversions_def rmap_def
  IsCreateTable_def IsAlterTable_def identifyCreateTableStatement_def
  identifyAlterTableStatement_def
  word_before_def word_after_def extractName_def parse_num_def group_text_def el_ok_def


section \<open>The classifiers\<close>

text \<open>
  Claim C2. For every statement that starts with \<open>CREATE TABLE\<close> in any letter case, after
  arbitrary leading whitespace (characters of the class \<open>\s\<close>), \<open>IsCreateTable\<close> holds and the
  translation is the create/alter-table rule list applied once, each rule to the output of the
  previous one, in the listed order.
\<close>
theorem C2_create_table_path:
  assumes "\<forall>x\<in>set ws. is_space x" and "map fold_key kw = ustr ''create table''"
  shows "IsCreateTable (ws @ kw @ rest) \<and>
         ToSqlite3Dialect (ws @ kw @ rest) =
           foldl (\<lambda>t rm. process rm t) (ws @ kw @ rest) createTableConversions"
proof -
  have "starts [ustr ''create'', ustr ''table''] (kw @ rest)"
    by (rule create_table_prefix [OF assms(2)])
  moreover from this have "dropWhile is_space (ws @ kw @ rest) = kw @ rest"
    by (rule dropWhile_space_starts [OF assms(1)]) (simp_all add: char_bits)
  ultimately have "IsCreateTable (ws @ kw @ rest)"
    by (simp add: IsCreateTable_starts del: starts.simps)
  then show ?thesis
    by (simp add: ToSqlite3Dialect_def ToSqlite3CreateTable_def applyConversions_foldl)
qed

text \<open>A statement that meets the hypotheses of C2.\<close>
theorem C2_witness:
  "IsCreateTable ([(rn CHR 0x0A), (rn CHR '' '')] @ (ustr ''Create Table'') @ (ustr '' t (id int)'')) \<and>
   ToSqlite3Dialect ([(rn CHR 0x0A), (rn CHR '' '')] @ (ustr ''Create Table'') @ (ustr '' t (id int)'')) =
     foldl (\<lambda>t rm. process rm t) ([(rn CHR 0x0A), (rn CHR '' '')] @ (ustr ''Create Table'') @ (ustr '' t (id int)''))
       createTableConversions"
  using C2_create_table_path [of "[(rn CHR 0x0A), (rn CHR '' '')]" "(ustr ''Create Table'')" "(ustr '' t (id int)'')"]
  by (simp add: char_bits)

text \<open>
  Claim C5. For every statement \<open>S\<close>, at most one of \<open>IsInsert S\<close>, \<open>IsCreateTable S\<close>,
  \<open>IsCreateIndex S\<close>, \<open>IsDropIndex S\<close>, \<open>IsAlterTable S\<close> holds; each of the five is unchanged
  when the letter case of \<open>S\<close> is changed, and when whitespace, newlines included, is added or
  removed in front of the statement.  A change of letter case leaves the fold key of every
  character as it is (\<open>S'\<close> and \<open>S\<close> have the same fold keys); the hypothesis also covers the
  two characters that \<^verbatim>\<open>(?i)\<close> takes for \<^verbatim>\<open>s\<close> and \<^verbatim>\<open>k\<close>.
\<close>
theorem C5_classifiers:
  "length (filter id [IsInsert S, IsCreateTable S, IsCreateIndex S, IsDropIndex S, IsAlterTable S])
     \<le> 1 \<and>
   (map fold_key S' = map fold_key S \<longrightarrow>
      IsInsert S' = IsInsert S \<and> IsCreateTable S' = IsCreateTable S \<and>
      IsCreateIndex S' = IsCreateIndex S \<and> IsDropIndex S' = IsDropIndex S \<and>
      IsAlterTable S' = IsAlterTable S) \<and>
   ((\<forall>x\<in>set ws. is_space x) \<longrightarrow>
      IsInsert (ws @ S) = IsInsert S \<and> IsCreateTable (ws @ S) = IsCreateTable S \<and>
      IsCreateIndex (ws @ S) = IsCreateIndex S \<and> IsDropIndex (ws @ S) = IsDropIndex S \<and>
      IsAlterTable (ws @ S) = IsAlterTable S)"
  using classifiers_exclusive [of S] classifiers_case_change [of S' S]
    classifiers_leading_space [of ws S] by blast

text \<open>A statement that meets the hypotheses of C5, on which one classifier holds.\<close>
theorem C5_witness:
  "length (filter id [IsInsert (ustr ''DROP INDEX i''), IsCreateTable (ustr ''DROP INDEX i''),
      IsCreateIndex (ustr ''DROP INDEX i''), IsDropIndex (ustr ''DROP INDEX i''), IsAlterTable (ustr ''DROP INDEX i'')])
     \<le> 1 \<and>
   IsDropIndex (ustr ''drop Index i'') = IsDropIndex (ustr ''DROP INDEX i'') \<and>
   IsDropIndex ([(rn CHR 0x0A), (rn CHR '' '')] @ (ustr ''DROP INDEX i'')) = IsDropIndex (ustr ''DROP INDEX i'') \<and>
   IsDropIndex (ustr ''DROP INDEX i'')"
proof -
  have "IsDropIndex (ustr ''DROP INDEX i'')"
    by (simp add: IsDropIndex_starts ci_prefix_def char_bits)
  then show ?thesis
    using C5_classifiers [of "(ustr ''DROP INDEX i'')" "(ustr ''drop Index i'')" "[(rn CHR 0x0A), (rn CHR '' '')]"]
    by (simp add: char_bits)
qed


section \<open>The rewrite engine\<close>

text \<open>
  Claim C6. \<open>applyConversions\<close> is a single left-to-right fold over the rule list: the empty list
  leaves the statement as it is, a rule is applied to the output of the rules before it, one
  pass is made (the result is \<open>foldl\<close> of \<open>process\<close> over the list).  A rule whose pattern does not
  match leaves its input unchanged.  A rule replaces all matches: \<open>process\<close> is the replacement
  loop started at the beginning of the text; where the text up to the leftmost match \<open>m\<close> holds
  no match, the loop copies that text, writes the expanded template for \<open>m\<close> and goes on in the
  same way with the rest of the text; a rest without a match is copied.
\<close>
theorem C6_apply_is_fold:
  "applyConversions s [] = s \<and>
   applyConversions s (rm # rms) = applyConversions (process rm s) rms \<and>
   applyConversions s (rms @ [rm]) = process rm (applyConversions s rms) \<and>
   applyConversions s rms = foldl (\<lambda>t rm. process rm t) s rms \<and>
   (\<not> MatchString (r rm) s \<longrightarrow> process rm s = s) \<and>
   process rm s = replaceAll (r rm) (replacement rm) True None s \<and>
   (unmatched (r rm) p pre (m @ rest) \<and> m \<noteq> [] \<and>
    rmatch False (r rm) (prev_after p pre, m @ rest, Map.empty) = (p', rest, c) # ts \<longrightarrow>
    replaceAll (r rm) (replacement rm) fresh p (pre @ m @ rest) =
      pre @ expand (replacement rm) (c(0 \<mapsto> (m @ rest, rest))) @
      replaceAll (r rm) (replacement rm) True p' rest) \<and>
   (\<not> matchFrom (r rm) p s \<longrightarrow> replaceAll (r rm) (replacement rm) fresh p s = s)"
  using applyConversions_append [of s rms rm] applyConversions_foldl [of s rms]
    process_no_match [of rm s]
    replaceAll_first_match [of "r rm" p pre m rest p' c ts "replacement rm" fresh]
    replaceAll_no_match [of "r rm" p s "replacement rm" fresh]
  by (simp add: process_def ReplaceAllString_def)

text \<open>The rule \<^verbatim>\<open>now()\<close> of the insert rules leaves a text without a match unchanged and replaces both
  matches of a text with two.\<close>
theorem C6_witness:
  "process (insertConversions ! 1) (ustr ''select 1'') = ustr ''select 1'' \<and>
   process (insertConversions ! 1) (ustr ''a now() now()'') = ustr ''a datetime('now') datetime('now')''"
  using
    C6_apply_is_fold [where rm = "insertConversions ! 1" and s = "(ustr ''select 1'')" and rms = "[]"
      and p = None and pre = "[]" and m = "[]" and rest = "[]" and fresh = True]
    C6_apply_is_fold [where rm = "insertConversions ! 1" and s = "(ustr ''a now() now()'')"
      and rms = "[]" and p = None and pre = "(ustr ''a '')" and m = "(ustr ''now()'')" and rest = "(ustr '' now()'')"
      and p' = "Some (rn CHR '')'')" and c = Map.empty and ts = "[]" and fresh = True]
    C6_apply_is_fold [where rm = "insertConversions ! 1" and s = "[]" and rms = "[]"
      and p = "Some (rn CHR '')'')" and pre = "(ustr '' '')" and m = "(ustr ''now()'')" and rest = "[]"
      and p' = "Some (rn CHR '')'')" and c = Map.empty and ts = "[]" and fresh = True]
  by (simp add: ev_match)


section \<open>The skip marker\<close>

text \<open>
  Claim C4, as stated: every CREATE TABLE (or ALTER TABLE) statement whose text contains the
  comment \<^verbatim>\<open>/* sqlite3-skip */\<close> anywhere is translated to the empty string.  The skip rule
  is the twelfth of the list and sees the text that the eleven rules before it have made of
  the statement: in the first statement below the rule for \<^verbatim>\<open>after\<close> has taken the
  beginning of the comment away.  The pattern of the skip rule also asks for a character
  after the comment, which the second statement does not have.
\<close>
theorem C4_counterexample:
  "IsCreateTable (ustr ''create table t (a int after /* sqlite3-skip */ b)'') \<and>
   ToSqlite3Dialect (ustr ''create table t (a int after /* sqlite3-skip */ b)'') =
     ustr ''create table t (a int  sqlite3-skip */ b)'' \<and>
   IsCreateTable (ustr ''CREATE TABLE t (id int) /* sqlite3-skip */'') \<and>
   ToSqlite3Dialect (ustr ''CREATE TABLE t (id int) /* sqlite3-skip */'') =
     ustr ''CREATE TABLE t (id int) /* sqlite3-skip */''"
  by (simp add: ev)

text \<open>
  Claim C4, amended: for every CREATE TABLE or ALTER TABLE statement \<open>S\<close>, if the text that the
  eleven rules before the skip rule make of \<open>S\<close> contains the comment \<^verbatim>\<open>/* sqlite3-skip */\<close>
  with at least one character before it and at least one character after it, then the
  translation of \<open>S\<close> is the empty string.
\<close>
theorem C4_skip_marker:
  assumes "IsCreateTable S \<or> IsAlterTable S"
    and "applyConversions S (take 11 createTableConversions) =
           pre @ ustr ''/* sqlite3-skip */'' @ post"
    and "pre \<noteq> []" and "post \<noteq> []"
  shows "ToSqlite3Dialect S = []"
proof -
  from assms(1) have "ToSqlite3Dialect S = applyConversions S createTableConversions"
    by (auto simp: ToSqlite3Dialect_def ToSqlite3CreateTable_def)
  also have "\<dots> = applyConversions
      (process (createTableConversions ! 11) (applyConversions S (take 11 createTableConversions)))
      (drop 12 createTableConversions)"
    by (subst createTableConversions_split) (simp only: applyConversions_app applyConversions.simps)
  also have "\<dots> = []"
    unfolding assms(2) skip_rule_process [OF assms(3,4)] by (rule after_skip_rule)
  finally show ?thesis .
qed

text \<open>A CREATE TABLE statement with the comment in its middle, which no earlier rule touches.\<close>
theorem C4_witness:
  "ToSqlite3Dialect (ustr ''CREATE TABLE t /* sqlite3-skip */ (id int)'') = []"
  using C4_skip_marker [of "(ustr ''CREATE TABLE t /* sqlite3-skip */ (id int)'')"
      "(ustr ''CREATE TABLE t '')" "(ustr '' (id int)'')"]
  by (simp add: ev_create)


section \<open>Date arithmetic on a column\<close>




end
